theory Spec2Isabelle
  imports Complex_Main "HOL-Library.Word"
begin

unbundle bit_operations_syntax

section \<open>Numbers, arrays and errors\<close>

text \<open>
  The viewer is JavaScript. Its numbers are modelled as reals: every comparison the code
  makes is exact on finite floats, and the arithmetic of the matrix library is read in
  exact arithmetic (rounding to 32-bit floats when a \<^verbatim>\<open>Float32Array\<close> is written
  is left out). The one place where the rounding of the arithmetic is modelled is the
  interpolation factor of the keyframe search, a quotient of two differences that the code
  computes in IEEE-754 double precision (see \<open>js_sub\<close> and \<open>js_div\<close> below).
  A \<^verbatim>\<open>Float32Array\<close> is a list of reals, which are its finite entries: an infinite
  or NaN entry has no counterpart here. A 4x4 matrix is such a list of 16 entries in
  column-major order, a vector one of 3 and a quaternion one of 4.
  A read past the end of an array (\<^verbatim>\<open>undefined\<close>, which arithmetic turns into NaN)
  has no counterpart in a list of reals: the theorems below assume the lengths under
  which it does not happen. A thrown exception is the left injection of a sum.
\<close>

datatype error = TypeError | RangeError

type_synonym mat4 = "real list"
type_synonym vec3 = "real list"
type_synonym quat = "real list"

text \<open>Sequencing of steps that may throw.\<close>

definition bindE :: "error + 'a \<Rightarrow> ('a \<Rightarrow> error + 'b) \<Rightarrow> error + 'b" where
  "bindE m f = (case m of Inl e \<Rightarrow> Inl e | Inr x \<Rightarrow> f x)"

text \<open>
  The one number the code computes that need not be finite is the animation time
  \<^verbatim>\<open>time % duration\<close>, which is NaN when the duration is 0.
\<close>

datatype num = Num real | NaN

definition js_rem :: "real \<Rightarrow> real \<Rightarrow> num" where
  "js_rem x d =
     (if d = 0 then NaN
      else Num (x - d * of_int (if 0 \<le> x / d then \<lfloor>x / d\<rfloor> else \<lceil>x / d\<rceil>)))"

text \<open>Comparisons with a number that may be NaN: false on NaN.\<close>

fun js_le :: "num \<Rightarrow> real \<Rightarrow> bool" where
  "js_le (Num t) x = (t \<le> x)"
| "js_le NaN x = False"

fun js_ge :: "num \<Rightarrow> real \<Rightarrow> bool" where
  "js_ge (Num t) x = (t \<ge> x)"
| "js_ge NaN x = False"

subsection \<open>Double-precision rounding\<close>

text \<open>
  Rounding of a real to the nearest integer, a tie going to the even one, as IEEE-754
  rounds by default.
\<close>

definition round_even :: "real \<Rightarrow> int" where
  "round_even x =
     (let f = \<lfloor>x\<rfloor> in
      if x - of_int f < 1 / 2 then f
      else if x - of_int f > 1 / 2 then f + 1
      else if even f then f else f + 1)"

text \<open>
  The binary exponent of a magnitude a in a format whose exponents run from \<open>emin\<close> to
  \<open>emax\<close>: the greatest e of that range, searched downwards from e, with
  \<open>2 powi e \<le> a\<close>, and \<open>emin\<close> when there is none (zero and the subnormal numbers).
\<close>

function expo_from :: "int \<Rightarrow> int \<Rightarrow> real \<Rightarrow> int" where
  "expo_from emin e a =
     (if e \<le> emin then emin else if 2 powi e \<le> a then e else expo_from emin (e - 1) a)"
  by pat_completeness auto
termination
  by (relation "measure (\<lambda>(emin, e, a). nat (e - emin))") auto

text \<open>
  Rounding to a binary floating-point format with m fraction bits: x is rounded to the
  nearest multiple of the spacing \<open>2 powi (e - m)\<close> of the floats around it, ties to
  even. The format's overflow to infinity is not part of it: the result is the IEEE one
  whenever the magnitude of x is below \<open>2 powi (emax + 1)\<close> less half a spacing.
\<close>

definition round_to :: "nat \<Rightarrow> int \<Rightarrow> int \<Rightarrow> real \<Rightarrow> real" where
  "round_to m emin emax x =
     (let e = expo_from emin emax \<bar>x\<bar>; q = 2 powi (e - int m)
      in of_int (round_even (x / q)) * q)"

text \<open>
  Double precision (binary64), the format of every JavaScript number, and single
  precision (binary32), the format of the entries of a \<^verbatim>\<open>Float32Array\<close>.
\<close>

definition round_double :: "real \<Rightarrow> real" where
  "round_double = round_to 52 (- 1022) 1023"

definition round_float32 :: "real \<Rightarrow> real" where
  "round_float32 = round_to 23 (- 126) 127"

definition is_double :: "real \<Rightarrow> bool" where
  "is_double x = (round_double x = x \<and> \<bar>x\<bar> < 2 ^ 1024)"

definition is_float32 :: "real \<Rightarrow> bool" where
  "is_float32 x = (round_float32 x = x \<and> \<bar>x\<bar> < 2 ^ 128)"

text \<open>
  The JavaScript operators \<^verbatim>\<open>-\<close> and \<^verbatim>\<open>/\<close> on finite numbers: the exact result,
  rounded to double precision. A division by zero, which gives an infinity or NaN in
  JavaScript, has no counterpart here (the real quotient by 0 is 0).
\<close>

definition js_sub :: "real \<Rightarrow> real \<Rightarrow> real" where
  "js_sub x y = round_double (x - y)"

definition js_div :: "real \<Rightarrow> real \<Rightarrow> real" where
  "js_div x y = round_double (x / y)"

text \<open>\<^verbatim>\<open>new Float32Array(n)\<close>: n entries, all zero.\<close>

definition Float32Array_new :: "nat \<Rightarrow> real list" where
  "Float32Array_new n = replicate n 0"

text \<open>
  \<^verbatim>\<open>data.set(src, offset)\<close> on a typed array copies the whole of \<open>src\<close> to
  \<open>offset\<close> and throws a RangeError when it does not fit.
\<close>

definition typed_set :: "'a list \<Rightarrow> 'a list \<Rightarrow> nat \<Rightarrow> error + 'a list" where
  "typed_set data src off =
     (if off + length src \<le> length data
      then Inr (take off data @ src @ drop (off + length src) data)
      else Inl RangeError)"

text \<open>\<^verbatim>\<open>a.subarray(b, e)\<close>: the entries from b up to e, clamped to the array.\<close>

definition subarray :: "'a list \<Rightarrow> nat \<Rightarrow> nat \<Rightarrow> 'a list" where
  "subarray a b e = take (e - b) (drop b a)"

section \<open>The matrix library (gl-matrix)\<close>

text \<open>
  The repository loads gl-matrix as the global \<^verbatim>\<open>glMatrix\<close>; its source is not part
  of the repository. Its functions write their result to the first argument \<open>out\<close>;
  here they return it. Entry \<open>4 * c + r\<close> of a matrix is row r of column c.
  \<^verbatim>\<open>mat4.create()\<close> is the identity matrix.
\<close>

definition mat4_create :: mat4 where
  "mat4_create = [1, 0, 0, 0,  0, 1, 0, 0,  0, 0, 1, 0,  0, 0, 0, 1]"

text \<open>\<^verbatim>\<open>mat4.clone(a)\<close>: a fresh matrix with the first 16 entries of a.\<close>

definition mat4_clone :: "real list \<Rightarrow> mat4" where
  "mat4_clone a = map (\<lambda>k. a ! k) [0..<16]"

text \<open>\<^verbatim>\<open>mat4.multiply(out, a, b)\<close>: the product a * b.\<close>

definition mat4_multiply :: "mat4 \<Rightarrow> mat4 \<Rightarrow> mat4" where
  "mat4_multiply a b =
     concat (map (\<lambda>c. map (\<lambda>r.
        b ! (4 * c) * a ! r + b ! (4 * c + 1) * a ! (4 + r)
        + b ! (4 * c + 2) * a ! (8 + r) + b ! (4 * c + 3) * a ! (12 + r)) [0, 1, 2, 3])
      [0, 1, 2, 3])"

text \<open>\<^verbatim>\<open>mat4.transpose(out, a)\<close>.\<close>

definition mat4_transpose :: "mat4 \<Rightarrow> mat4" where
  "mat4_transpose a = map (\<lambda>k. a ! (4 * (k mod 4) + k div 4)) [0..<16]"

text \<open>
  \<^verbatim>\<open>mat4.invert(out, a)\<close> returns null and leaves \<open>out\<close> alone when the determinant
  is 0; otherwise \<open>out\<close> is the adjugate divided by the determinant.
\<close>

definition mat4_invert :: "mat4 \<Rightarrow> mat4 option" where
  "mat4_invert a =
     (let a00 = a ! 0; a01 = a ! 1; a02 = a ! 2; a03 = a ! 3;
          a10 = a ! 4; a11 = a ! 5; a12 = a ! 6; a13 = a ! 7;
          a20 = a ! 8; a21 = a ! 9; a22 = a ! 10; a23 = a ! 11;
          a30 = a ! 12; a31 = a ! 13; a32 = a ! 14; a33 = a ! 15;
          b00 = a00 * a11 - a01 * a10; b01 = a00 * a12 - a02 * a10;
          b02 = a00 * a13 - a03 * a10; b03 = a01 * a12 - a02 * a11;
          b04 = a01 * a13 - a03 * a11; b05 = a02 * a13 - a03 * a12;
          b06 = a20 * a31 - a21 * a30; b07 = a20 * a32 - a22 * a30;
          b08 = a20 * a33 - a23 * a30; b09 = a21 * a32 - a22 * a31;
          b10 = a21 * a33 - a23 * a31; b11 = a22 * a33 - a23 * a32;
          det = b00 * b11 - b01 * b10 + b02 * b09 + b03 * b08 - b04 * b07 + b05 * b06
      in if det = 0 then None
         else Some (map (\<lambda>x. x * (1 / det))
           [a11 * b11 - a12 * b10 + a13 * b09, a02 * b10 - a01 * b11 - a03 * b09,
            a31 * b05 - a32 * b04 + a33 * b03, a22 * b04 - a21 * b05 - a23 * b03,
            a12 * b08 - a10 * b11 - a13 * b07, a00 * b11 - a02 * b08 + a03 * b07,
            a32 * b02 - a30 * b05 - a33 * b01, a20 * b05 - a22 * b02 + a23 * b01,
            a10 * b10 - a11 * b08 + a13 * b06, a01 * b08 - a00 * b10 - a03 * b06,
            a30 * b04 - a31 * b02 + a33 * b00, a21 * b02 - a20 * b04 - a23 * b00,
            a11 * b07 - a10 * b09 - a12 * b06, a00 * b09 - a01 * b07 + a02 * b06,
            a31 * b01 - a30 * b03 - a32 * b00, a20 * b03 - a21 * b01 + a22 * b00]))"

text \<open>
  \<^verbatim>\<open>mat4.fromRotationTranslationScale(out, q, v, s)\<close>: the matrix of scaling by s,
  then rotating by the quaternion q, then translating by v.
\<close>

definition mat4_fromRotationTranslationScale :: "quat \<Rightarrow> vec3 \<Rightarrow> vec3 \<Rightarrow> mat4" where
  "mat4_fromRotationTranslationScale q v s =
     (let x = q ! 0; y = q ! 1; z = q ! 2; w = q ! 3;
          x2 = x + x; y2 = y + y; z2 = z + z;
          xx = x * x2; xy = x * y2; xz = x * z2;
          yy = y * y2; yz = y * z2; zz = z * z2;
          wx = w * x2; wy = w * y2; wz = w * z2;
          sx = s ! 0; sy = s ! 1; sz = s ! 2
      in [(1 - (yy + zz)) * sx, (xy + wz) * sx, (xz - wy) * sx, 0,
          (xy - wz) * sy, (1 - (xx + zz)) * sy, (yz + wx) * sy, 0,
          (xz + wy) * sz, (yz - wx) * sz, (1 - (xx + yy)) * sz, 0,
          v ! 0, v ! 1, v ! 2, 1])"

text \<open>
  \<^verbatim>\<open>mat4.copy(out, a)\<close>, \<^verbatim>\<open>vec3.clone(a)\<close> and \<^verbatim>\<open>quat.clone(a)\<close>: the first
  16, 3 and 4 entries of a.
\<close>

definition mat4_copy :: "real list \<Rightarrow> mat4" where
  "mat4_copy a = map (\<lambda>k. a ! k) [0..<16]"

definition vec3_clone :: "real list \<Rightarrow> vec3" where
  "vec3_clone a = [a ! 0, a ! 1, a ! 2]"

definition quat_clone :: "real list \<Rightarrow> quat" where
  "quat_clone a = [a ! 0, a ! 1, a ! 2, a ! 3]"

text \<open>
  The decomposition of a transformation matrix, as in gl-matrix 3.
  \<^verbatim>\<open>mat4.getTranslation(out, mat)\<close> is the last column;
  \<^verbatim>\<open>mat4.getScaling(out, mat)\<close> is the lengths of the first three columns
  (\<^verbatim>\<open>Math.hypot\<close> of their entries), so never negative.
\<close>

definition mat4_getTranslation :: "mat4 \<Rightarrow> vec3" where
  "mat4_getTranslation mat = [mat ! 12, mat ! 13, mat ! 14]"

definition mat4_getScaling :: "mat4 \<Rightarrow> vec3" where
  "mat4_getScaling mat =
     (let m11 = mat ! 0; m12 = mat ! 1; m13 = mat ! 2;
          m21 = mat ! 4; m22 = mat ! 5; m23 = mat ! 6;
          m31 = mat ! 8; m32 = mat ! 9; m33 = mat ! 10
      in [sqrt (m11 * m11 + m12 * m12 + m13 * m13),
          sqrt (m21 * m21 + m22 * m22 + m23 * m23),
          sqrt (m31 * m31 + m32 * m32 + m33 * m33)])"

text \<open>
  \<^verbatim>\<open>mat4.getRotation(out, mat)\<close>: the entries of the upper-left 3x3 part are divided
  by the scaling (entry \<open>mat[4 * c + r]\<close> by the r-th scaling, as the library does), and
  the quaternion is read off the result by the branch of the largest of the trace and the
  three diagonal entries. A scaling of 0, for which the library divides by zero, has no
  counterpart here.
\<close>

definition mat4_getRotation :: "mat4 \<Rightarrow> quat" where
  "mat4_getRotation mat =
     (let scaling = mat4_getScaling mat;
          is1 = 1 / scaling ! 0; is2 = 1 / scaling ! 1; is3 = 1 / scaling ! 2;
          sm11 = mat ! 0 * is1; sm12 = mat ! 1 * is2; sm13 = mat ! 2 * is3;
          sm21 = mat ! 4 * is1; sm22 = mat ! 5 * is2; sm23 = mat ! 6 * is3;
          sm31 = mat ! 8 * is1; sm32 = mat ! 9 * is2; sm33 = mat ! 10 * is3;
          trace = sm11 + sm22 + sm33
      in if trace > 0 then
           (let S = sqrt (trace + 1) * 2
            in [(sm23 - sm32) / S, (sm31 - sm13) / S, (sm12 - sm21) / S, (1 / 4) * S])
         else if sm11 > sm22 \<and> sm11 > sm33 then
           (let S = sqrt (1 + sm11 - sm22 - sm33) * 2
            in [(1 / 4) * S, (sm12 + sm21) / S, (sm31 + sm13) / S, (sm23 - sm32) / S])
         else if sm22 > sm33 then
           (let S = sqrt (1 + sm22 - sm11 - sm33) * 2
            in [(sm12 + sm21) / S, (1 / 4) * S, (sm23 + sm32) / S, (sm31 - sm13) / S])
         else
           (let S = sqrt (1 + sm33 - sm11 - sm22) * 2
            in [(sm31 + sm13) / S, (sm23 + sm32) / S, (1 / 4) * S, (sm12 - sm21) / S]))"

text \<open>\<^verbatim>\<open>mat4.fromTranslation(out, v)\<close> and \<^verbatim>\<open>mat4.fromYRotation(out, rad)\<close>.\<close>

definition mat4_fromTranslation :: "vec3 \<Rightarrow> mat4" where
  "mat4_fromTranslation v = [1, 0, 0, 0,  0, 1, 0, 0,  0, 0, 1, 0,  v ! 0, v ! 1, v ! 2, 1]"

definition mat4_fromYRotation :: "real \<Rightarrow> mat4" where
  "mat4_fromYRotation rad =
     [cos rad, 0, - sin rad, 0,  0, 1, 0, 0,  sin rad, 0, cos rad, 0,  0, 0, 0, 1]"

text \<open>\<^verbatim>\<open>vec3.lerp(out, a, b, t)\<close>: linear interpolation, component by component.\<close>

definition vec3_lerp :: "vec3 \<Rightarrow> vec3 \<Rightarrow> real \<Rightarrow> vec3" where
  "vec3_lerp a b t = map (\<lambda>k. a ! k + t * (b ! k - a ! k)) [0, 1, 2]"

text \<open>
  \<^verbatim>\<open>quat.slerp(out, a, b, t)\<close>: spherical interpolation along the shorter arc, which
  falls back to linear interpolation when the two quaternions are within
  \<^verbatim>\<open>glMatrix.EPSILON\<close> of each other.
\<close>

definition EPSILON :: real where
  "EPSILON = 1 / 1000000"

definition quat_slerp :: "quat \<Rightarrow> quat \<Rightarrow> real \<Rightarrow> quat" where
  "quat_slerp a b t =
     (let cosom0 = a ! 0 * b ! 0 + a ! 1 * b ! 1 + a ! 2 * b ! 2 + a ! 3 * b ! 3;
          cosom = (if cosom0 < 0 then - cosom0 else cosom0);
          sgn_b = (if cosom0 < 0 then - 1 else 1);
          omega = arccos cosom;
          sinom = sin omega;
          scale0 = (if 1 - cosom > EPSILON then sin ((1 - t) * omega) / sinom else 1 - t);
          scale1 = (if 1 - cosom > EPSILON then sin (t * omega) / sinom else t)
      in map (\<lambda>k. scale0 * a ! k + scale1 * (sgn_b * b ! k)) [0, 1, 2, 3])"

section \<open>Primitives, meshes and nodes (scene/Mesh.js, scene/Node.js)\<close>

text \<open>
  The material and feature fields of a primitive that the renderer reads; its GPU buffers
  and textures are handles of the graphics API and are left out.
\<close>

record primitive =
  baseColor :: "real list"
  hasTexture :: bool
  metallicFactor :: real
  roughnessFactor :: real
  hasMetallicRoughnessTexture :: bool
  normalScale :: real
  hasNormalTexture :: bool
  emissiveFactor :: "real list"
  hasEmissiveTexture :: bool
  hasSkinning :: bool
  hasNormals :: bool

record mesh =
  primitives :: "primitive list"

text \<open>
  What \<^verbatim>\<open>PrimitiveInstanceFactory.create\<close> returns, without the GPU buffers and the
  bind group.
\<close>

record primitiveInstance =
  primitive :: primitive

text \<open>
  A node. \<open>meshIndex\<close> is \<^verbatim>\<open>undefined\<close> and \<open>skinIndex\<close> and \<open>primitiveInstances\<close>
  are null when \<open>None\<close>. Children are indices into the node array.
\<close>

record node =
  translation :: vec3
  rotation :: quat
  scale :: vec3
  meshIndex :: "nat option"
  skinIndex :: "nat option"
  children :: "nat list"
  matrix :: mat4
  worldMatrix :: mat4
  hasOriginalMatrix :: bool
  primitiveInstances :: "primitiveInstance list option"

text \<open>\<^verbatim>\<open>Node.updateLocalMatrix\<close> and \<^verbatim>\<open>Node.updateWorldMatrix(parentMatrix)\<close>.\<close>

definition updateLocalMatrix :: "node \<Rightarrow> node" where
  "updateLocalMatrix n =
     n\<lparr>matrix := mat4_fromRotationTranslationScale (rotation n) (translation n) (scale n)\<rparr>"

definition updateWorldMatrix :: "mat4 \<Rightarrow> node \<Rightarrow> node" where
  "updateWorldMatrix parentMatrix n =
     (let n' = updateLocalMatrix n
      in n'\<lparr>worldMatrix := mat4_multiply parentMatrix (matrix n')\<rparr>)"

text \<open>
  The fields of a glTF node object that \<^verbatim>\<open>Node.fromGLTF(nodeData, index)\<close> reads;
  \<open>None\<close> is an absent field. The name of the node, which nothing below reads, is
  left out.
\<close>

record nodeData =
  gltf_translation :: "real list option"
  gltf_rotation :: "real list option"
  gltf_scale :: "real list option"
  gltf_mesh :: "nat option"
  gltf_skin :: "nat option"
  gltf_children :: "nat list option"
  gltf_matrix :: "real list option"

text \<open>
  \<^verbatim>\<open>Node.fromGLTF\<close>: the constructor with the fields of the node object or their
  defaults; then, when the node object has a matrix, the matrix is copied to the node and
  decomposed into the node's translation, rotation and scale.
\<close>

definition Node_fromGLTF :: "nodeData \<Rightarrow> node" where
  "Node_fromGLTF nodeData =
     (let n = \<lparr>translation = (case gltf_translation nodeData of
                                Some v \<Rightarrow> vec3_clone v | None \<Rightarrow> [0, 0, 0]),
               rotation = (case gltf_rotation nodeData of
                             Some q \<Rightarrow> quat_clone q | None \<Rightarrow> [0, 0, 0, 1]),
               scale = (case gltf_scale nodeData of
                          Some s \<Rightarrow> vec3_clone s | None \<Rightarrow> [1, 1, 1]),
               meshIndex = gltf_mesh nodeData,
               skinIndex = gltf_skin nodeData,
               children = (case gltf_children nodeData of Some c \<Rightarrow> c | None \<Rightarrow> []),
               matrix = mat4_create, worldMatrix = mat4_create,
               hasOriginalMatrix = (gltf_matrix nodeData \<noteq> None),
               primitiveInstances = None\<rparr>
      in case gltf_matrix nodeData of
           None \<Rightarrow> n
         | Some m \<Rightarrow>
             (let n1 = n\<lparr>matrix := mat4_copy m\<rparr>;
                  n2 = n1\<lparr>translation := mat4_getTranslation (matrix n1)\<rparr>;
                  n3 = n2\<lparr>rotation := mat4_getRotation (matrix n2)\<rparr>
              in n3\<lparr>scale := mat4_getScaling (matrix n3)\<rparr>))"

record nodeHierarchy =
  nodes :: "node list"
  rootNodes :: "nat list"

text \<open>
  \<^verbatim>\<open>NodeHierarchy.updateWorldMatrices(baseTransform, forceUpdate)\<close>. The parent matrix
  that \<^verbatim>\<open>updateRecursive\<close> receives is a reference: to \<open>baseTransform\<close> for a root, to
  the parent's \<open>worldMatrix\<close> array for a child; it is read when the node's world matrix is
  computed. The recursion follows child indices and need not end on a graph with a cycle, so
  it carries fuel, one unit per level of nesting: \<open>None\<close> is "did not return with this
  fuel". A child index outside the node array makes \<^verbatim>\<open>node.hasOriginalMatrix\<close> throw
  a TypeError. The loop over the children of a node and the loop over the roots have the same
  body and are one function here, \<open>updateEach\<close>.
\<close>

datatype matref = BaseTransform | WorldMatrixOf nat

definition deref :: "mat4 \<Rightarrow> node list \<Rightarrow> matref \<Rightarrow> mat4" where
  "deref baseTransform ns r =
     (case r of BaseTransform \<Rightarrow> baseTransform | WorldMatrixOf p \<Rightarrow> worldMatrix (ns ! p))"

fun updateRecursive ::
    "nat \<Rightarrow> mat4 \<Rightarrow> bool \<Rightarrow> nat \<Rightarrow> matref \<Rightarrow> node list \<Rightarrow> (error + node list) option"
  and updateEach ::
    "nat \<Rightarrow> mat4 \<Rightarrow> bool \<Rightarrow> nat list \<Rightarrow> matref \<Rightarrow> node list \<Rightarrow> (error + node list) option"
where
  "updateRecursive 0 baseTransform forceUpdate nodeIndex parent ns = None"
| "updateRecursive (Suc fuel) baseTransform forceUpdate nodeIndex parent ns =
     (if nodeIndex < length ns then
        (let n = ns ! nodeIndex;
             parentMatrix = deref baseTransform ns parent;
             n' = (if forceUpdate \<or> \<not> hasOriginalMatrix n
                   then updateWorldMatrix parentMatrix n
                   else n\<lparr>worldMatrix := mat4_multiply parentMatrix (matrix n)\<rparr>)
         in updateEach fuel baseTransform forceUpdate (children n')
              (WorldMatrixOf nodeIndex) (ns[nodeIndex := n']))
      else Some (Inl TypeError))"
| "updateEach fuel baseTransform forceUpdate [] parent ns = Some (Inr ns)"
| "updateEach fuel baseTransform forceUpdate (i # is) parent ns =
     (case updateRecursive fuel baseTransform forceUpdate i parent ns of
        Some (Inr ns') \<Rightarrow> updateEach fuel baseTransform forceUpdate is parent ns'
      | r \<Rightarrow> r)"

definition updateWorldMatrices ::
    "nat \<Rightarrow> nodeHierarchy \<Rightarrow> mat4 \<Rightarrow> bool \<Rightarrow> (error + node list) option" where
  "updateWorldMatrices fuel h baseTransform forceUpdate =
     updateEach fuel baseTransform forceUpdate (rootNodes h) BaseTransform (nodes h)"

text \<open>
  \<^verbatim>\<open>NodeHierarchy.traverse(callback)\<close>, with the callback that records the index of
  each node it is given: the nodes in depth-first pre-order, children in declared order.
\<close>

fun traverseRecursive :: "nat \<Rightarrow> node list \<Rightarrow> nat \<Rightarrow> (error + nat list) option"
  and traverseEach :: "nat \<Rightarrow> node list \<Rightarrow> nat list \<Rightarrow> (error + nat list) option"
where
  "traverseRecursive 0 ns nodeIndex = None"
| "traverseRecursive (Suc fuel) ns nodeIndex =
     (if nodeIndex < length ns then
        (case traverseEach fuel ns (children (ns ! nodeIndex)) of
           Some (Inr visited) \<Rightarrow> Some (Inr (nodeIndex # visited))
         | r \<Rightarrow> r)
      else Some (Inl TypeError))"
| "traverseEach fuel ns [] = Some (Inr [])"
| "traverseEach fuel ns (i # is) =
     (case traverseRecursive fuel ns i of
        Some (Inr visited) \<Rightarrow>
          (case traverseEach fuel ns is of
             Some (Inr visited') \<Rightarrow> Some (Inr (visited @ visited'))
           | r \<Rightarrow> r)
      | r \<Rightarrow> r)"

definition traverse :: "nat \<Rightarrow> nodeHierarchy \<Rightarrow> (error + nat list) option" where
  "traverse fuel h = traverseEach fuel (nodes h) (rootNodes h)"

text \<open>
  The node set forms a forest, seen from the roots, when the traversal returns and meets no
  node twice.
\<close>

definition forest :: "nat \<Rightarrow> nodeHierarchy \<Rightarrow> bool" where
  "forest fuel h = (case traverse fuel h of Some (Inr visited) \<Rightarrow> distinct visited | _ \<Rightarrow> False)"

text \<open>The local matrix recomposed from a node's translation, rotation and scale.\<close>

definition localMatrix :: "node \<Rightarrow> mat4" where
  "localMatrix n = mat4_fromRotationTranslationScale (rotation n) (translation n) (scale n)"

text \<open>
  For the proofs about the update: a node without its two cached matrices; the condition on
  the parent reference (the parent is a node outside the part of the tree being updated); and
  what an update of the nodes \<open>xs\<close> leaves behind: the same nodes but for the cached
  matrices, every node outside \<open>xs\<close> untouched, and for every node of \<open>xs\<close> the local
  matrix recomposed and each child's world matrix the product of the node's world matrix and
  the child's local matrix.
\<close>

definition strip :: "node \<Rightarrow> node" where
  "strip n = n\<lparr>matrix := [], worldMatrix := []\<rparr>"

definition par_ok :: "matref \<Rightarrow> nat list \<Rightarrow> node list \<Rightarrow> bool" where
  "par_ok par xs ns =
     (case par of BaseTransform \<Rightarrow> True | WorldMatrixOf p \<Rightarrow> p < length ns \<and> p \<notin> set xs)"

definition updated :: "node list \<Rightarrow> node list \<Rightarrow> nat list \<Rightarrow> bool" where
  "updated ns ns' xs =
     (map strip ns' = map strip ns
      \<and> (\<forall>k < length ns. k \<notin> set xs \<longrightarrow> ns' ! k = ns ! k)
      \<and> (\<forall>k \<in> set xs. matrix (ns' ! k) = localMatrix (ns ! k))
      \<and> (\<forall>p \<in> set xs. \<forall>c \<in> set (children (ns ! p)).
            worldMatrix (ns' ! c) = mat4_multiply (worldMatrix (ns' ! p)) (localMatrix (ns ! c))))"

section \<open>Skins (animation/Skin.js)\<close>

record skin =
  joints :: "nat list"
  inverseBindMatrices :: "mat4 list"
  jointMatrices :: "mat4 list"

text \<open>The maximum number of joints (constants.js).\<close>

definition MAX_JOINTS :: nat where
  "MAX_JOINTS = 180"

text \<open>The constructor: one fresh identity joint matrix per joint.\<close>

definition Skin :: "nat list \<Rightarrow> mat4 list \<Rightarrow> skin" where
  "Skin js ibms =
     \<lparr>joints = js, inverseBindMatrices = ibms, jointMatrices = map (\<lambda>_. mat4_create) js\<rparr>"

definition jointCount :: "skin \<Rightarrow> nat" where
  "jointCount s = length (joints s)"

text \<open>
  \<^verbatim>\<open>Skin.fromGLTF(skinData, getAccessorData)\<close>. The skin of the document lists its
  joints and may name an accessor with the inverse bind matrices; \<open>getAccessorData\<close> is the
  callback that reads an accessor, and may throw.
\<close>

record skinData =
  gltf_joints :: "nat list"
  gltf_inverseBindMatrices :: "nat option"

definition Skin_fromGLTF :: "skinData \<Rightarrow> (nat \<Rightarrow> error + real list) \<Rightarrow> error + skin" where
  "Skin_fromGLTF skinData getAccessorData =
     (case gltf_inverseBindMatrices skinData of
        Some accessorIndex \<Rightarrow>
          bindE (getAccessorData accessorIndex) (\<lambda>data.
            Inr (Skin (gltf_joints skinData)
                  (map (\<lambda>i. mat4_clone (subarray data (i * 16) (i * 16 + 16)))
                     [0..<length (gltf_joints skinData)])))
      | None \<Rightarrow>
          Inr (Skin (gltf_joints skinData) (map (\<lambda>_. mat4_create) (gltf_joints skinData))))"

text \<open>
  \<^verbatim>\<open>updateMatrices(nodes)\<close>. A joint that is no index of the node array makes
  \<^verbatim>\<open>jointNode.worldMatrix\<close> throw; so does a missing matrix at index i.
\<close>

function updateMatrices_loop :: "node list \<Rightarrow> nat \<Rightarrow> skin \<Rightarrow> error + skin" where
  "updateMatrices_loop ns i s =
     (if i < length (joints s) then
        (if joints s ! i < length ns \<and> i < length (jointMatrices s)
            \<and> i < length (inverseBindMatrices s)
         then updateMatrices_loop ns (Suc i)
                (s\<lparr>jointMatrices := (jointMatrices s)
                     [i := mat4_multiply (worldMatrix (ns ! (joints s ! i)))
                             (inverseBindMatrices s ! i)]\<rparr>)
         else Inl TypeError)
      else Inr s)"
  by pat_completeness auto
termination
  by (relation "measure (\<lambda>(ns, i, s). length (joints s) - i)") auto

definition updateMatrices :: "skin \<Rightarrow> node list \<Rightarrow> error + skin" where
  "updateMatrices s ns = updateMatrices_loop ns 0 s"

text \<open>
  \<^verbatim>\<open>getMatricesArray(maxJoints)\<close>: a zero-filled array of \<open>maxJoints * 16\<close> floats,
  then the loop \<^verbatim>\<open>for (i = 0; i < numJoints; i++) data.set(jointMatrices[i], i * 16)\<close>.
\<close>

function getMatricesArray_loop :: "mat4 list \<Rightarrow> nat \<Rightarrow> nat \<Rightarrow> real list \<Rightarrow> error + real list" where
  "getMatricesArray_loop jms numJoints i data =
     (if i < numJoints
      then (case typed_set data (jms ! i) (i * 16) of
              Inl e \<Rightarrow> Inl e
            | Inr data' \<Rightarrow> getMatricesArray_loop jms numJoints (Suc i) data')
      else Inr data)"
  by pat_completeness auto
termination
  by (relation "measure (\<lambda>(jms, numJoints, i, data). numJoints - i)") auto

definition getMatricesArray :: "skin \<Rightarrow> nat \<Rightarrow> error + real list" where
  "getMatricesArray s maxJoints =
     (let data = Float32Array_new (maxJoints * 16);
          numJoints = min (length (jointMatrices s)) maxJoints
      in getMatricesArray_loop (jointMatrices s) numJoints 0 data)"

text \<open>Slot i of a flat array of matrices: its 16 floats from index \<open>16 * i\<close>.\<close>

definition slot :: "real list \<Rightarrow> nat \<Rightarrow> real list" where
  "slot data i = subarray data (i * 16) (i * 16 + 16)"

text \<open>\<^verbatim>\<open>SkinManager.get(index)\<close>: the skin, or null.\<close>

definition SkinManager_get :: "skin list \<Rightarrow> nat \<Rightarrow> skin option" where
  "SkinManager_get skins index = (if index < length skins then Some (skins ! index) else None)"

section \<open>Animation (animation/Animation.js)\<close>

text \<open>
  A channel: the index of its target node, the animated property, the keyframe times and
  the keyframe values (3 floats per key for a translation or a scale, 4 for a rotation),
  both of them \<^verbatim>\<open>Float32Array\<close>s with finite entries.
\<close>

record animationChannel =
  targetNode :: nat
  targetPath :: string
  times_arr :: "real list"
  values_arr :: "real list"
  interpolation :: string

record keyframes =
  prevIndex :: nat
  nextIndex :: nat
  factor :: real

text \<open>
  The search loop of \<^verbatim>\<open>_findKeyframes\<close>:
  \<^verbatim>\<open>for (i = 0; i < times.length - 1; i++) if (t >= times[i] && t < times[i + 1]) ...\<close>,
  with the final \<^verbatim>\<open>return\<close> of the function when the loop finds nothing. The factor
  \<^verbatim>\<open>(t - startTime) / (endTime - startTime)\<close> is computed in double precision: both
  differences are rounded, and so is their quotient.
\<close>

function findKeyframes_loop :: "real list \<Rightarrow> real \<Rightarrow> nat \<Rightarrow> keyframes" where
  "findKeyframes_loop ts t i =
     (if i < length ts - 1 then
        (if t \<ge> ts ! i \<and> t < ts ! (i + 1)
         then (let startTime = ts ! i; endTime = ts ! (i + 1)
               in \<lparr>prevIndex = i, nextIndex = i + 1,
                   factor = js_div (js_sub t startTime) (js_sub endTime startTime)\<rparr>)
         else findKeyframes_loop ts t (Suc i))
      else \<lparr>prevIndex = 0, nextIndex = 0, factor = 0\<rparr>)"
  by pat_completeness auto
termination
  by (relation "measure (\<lambda>(ts, t, i). length ts - 1 - i)") auto

text \<open>
  \<^verbatim>\<open>_findKeyframes(t)\<close>. When t is NaN both edge tests are false and so is every test
  of the loop, which leaves the final \<^verbatim>\<open>return\<close>.
\<close>

definition findKeyframes :: "animationChannel \<Rightarrow> num \<Rightarrow> keyframes" where
  "findKeyframes ch t =
     (let ts = times_arr ch in
      if length ts = 0 then \<lparr>prevIndex = 0, nextIndex = 0, factor = 0\<rparr>
      else if js_le t (ts ! 0) then \<lparr>prevIndex = 0, nextIndex = 0, factor = 0\<rparr>
      else if js_ge t (ts ! (length ts - 1))
        then (let last_i = length ts - 1
              in \<lparr>prevIndex = last_i, nextIndex = last_i, factor = 0\<rparr>)
      else (case t of
              Num r \<Rightarrow> findKeyframes_loop ts r 0
            | NaN \<Rightarrow> \<lparr>prevIndex = 0, nextIndex = 0, factor = 0\<rparr>))"

text \<open>\<^verbatim>\<open>_applyRotation\<close>, \<^verbatim>\<open>_applyTranslation\<close> and \<^verbatim>\<open>_applyScale\<close>.\<close>

definition applyRotation :: "animationChannel \<Rightarrow> node \<Rightarrow> nat \<Rightarrow> nat \<Rightarrow> real \<Rightarrow> node" where
  "applyRotation ch n prevI nextI f =
     (let prev = subarray (values_arr ch) (prevI * 4) (prevI * 4 + 4);
          next = subarray (values_arr ch) (nextI * 4) (nextI * 4 + 4)
      in n\<lparr>rotation := quat_slerp prev next f\<rparr>)"

definition applyTranslation :: "animationChannel \<Rightarrow> node \<Rightarrow> nat \<Rightarrow> nat \<Rightarrow> real \<Rightarrow> node" where
  "applyTranslation ch n prevI nextI f =
     (let prev = subarray (values_arr ch) (prevI * 3) (prevI * 3 + 3);
          next = subarray (values_arr ch) (nextI * 3) (nextI * 3 + 3)
      in n\<lparr>translation := vec3_lerp prev next f\<rparr>)"

definition applyScale :: "animationChannel \<Rightarrow> node \<Rightarrow> nat \<Rightarrow> nat \<Rightarrow> real \<Rightarrow> node" where
  "applyScale ch n prevI nextI f =
     (let prev = subarray (values_arr ch) (prevI * 3) (prevI * 3 + 3);
          next = subarray (values_arr ch) (nextI * 3) (nextI * 3 + 3)
      in n\<lparr>scale := vec3_lerp prev next f\<rparr>)"

text \<open>\<^verbatim>\<open>AnimationChannel.apply(node, t)\<close>; any other target path changes nothing.\<close>

definition apply_channel :: "animationChannel \<Rightarrow> node \<Rightarrow> num \<Rightarrow> node" where
  "apply_channel ch n t =
     (let k = findKeyframes ch t in
      if targetPath ch = ''rotation'' then applyRotation ch n (prevIndex k) (nextIndex k) (factor k)
      else if targetPath ch = ''translation''
        then applyTranslation ch n (prevIndex k) (nextIndex k) (factor k)
      else if targetPath ch = ''scale'' then applyScale ch n (prevIndex k) (nextIndex k) (factor k)
      else n)"

text \<open>The number of floats of one keyframe of the channel's property.\<close>

definition components_of_path :: "string \<Rightarrow> nat" where
  "components_of_path p = (if p = ''rotation'' then 4 else 3)"

record animation =
  channels :: "animationChannel list"
  duration :: real

text \<open>
  \<^verbatim>\<open>Animation.update(nodes, time)\<close>: the loop over the channels, which skips
  (\<^verbatim>\<open>continue\<close>) a channel whose \<^verbatim>\<open>nodes[channel.targetNode]\<close> is undefined.
\<close>

primrec Animation_update_loop :: "animationChannel list \<Rightarrow> node list \<Rightarrow> num \<Rightarrow> node list" where
  "Animation_update_loop [] ns t = ns"
| "Animation_update_loop (channel # rest) ns t =
     (if targetNode channel < length ns
      then Animation_update_loop rest
             (ns[targetNode channel := apply_channel channel (ns ! targetNode channel) t]) t
      else Animation_update_loop rest ns t)"

definition Animation_update :: "animation \<Rightarrow> node list \<Rightarrow> real \<Rightarrow> node list" where
  "Animation_update a ns time =
     (let t = js_rem time (duration a) in Animation_update_loop (channels a) ns t)"

text \<open>
  For stating what a channel does: the field of the node that the channel writes, the i-th
  keyframe of the channel (the slice that \<^verbatim>\<open>values.subarray\<close> takes for index i) and
  the interpolation the channel's property uses.
\<close>

definition animated :: "animationChannel \<Rightarrow> node \<Rightarrow> real list" where
  "animated ch n =
     (if targetPath ch = ''rotation'' then rotation n
      else if targetPath ch = ''translation'' then translation n
      else if targetPath ch = ''scale'' then scale n
      else [])"

definition keyValue :: "animationChannel \<Rightarrow> nat \<Rightarrow> real list" where
  "keyValue ch i =
     (let c = components_of_path (targetPath ch)
      in subarray (values_arr ch) (i * c) (i * c + c))"

definition interpolate :: "animationChannel \<Rightarrow> real list \<Rightarrow> real list \<Rightarrow> real \<Rightarrow> real list" where
  "interpolate ch a b f =
     (if targetPath ch = ''rotation'' then quat_slerp a b f else vec3_lerp a b f)"

section \<open>Accessors (loaders/GLTFLoader.js, constants.js)\<close>

text \<open>
  A binary buffer is a \<^verbatim>\<open>Uint8Array\<close>: a view, from its own byte offset, of an
  \<^verbatim>\<open>ArrayBuffer\<close> (for a GLB file, of the whole file). The bytes are 8-bit words.
\<close>

type_synonym byte = "8 word"

record binData =
  buffer :: "byte list"
  bin_byteOffset :: nat

datatype typedArrayKind =
  Int8Array | Uint8Array | Int16Array | Uint16Array | Uint32Array | Float32Array

text \<open>The tables of constants.js; a key that a table does not have gives \<^verbatim>\<open>undefined\<close>.\<close>

definition COMPONENT_TYPE_ARRAYS :: "nat \<Rightarrow> typedArrayKind option" where
  "COMPONENT_TYPE_ARRAYS c =
     (if c = 5120 then Some Int8Array
      else if c = 5121 then Some Uint8Array
      else if c = 5122 then Some Int16Array
      else if c = 5123 then Some Uint16Array
      else if c = 5125 then Some Uint32Array
      else if c = 5126 then Some Float32Array
      else None)"

definition TYPE_COMPONENTS :: "string \<Rightarrow> nat option" where
  "TYPE_COMPONENTS t =
     (if t = ''SCALAR'' then Some 1
      else if t = ''VEC2'' then Some 2
      else if t = ''VEC3'' then Some 3
      else if t = ''VEC4'' then Some 4
      else if t = ''MAT2'' then Some 4
      else if t = ''MAT3'' then Some 9
      else if t = ''MAT4'' then Some 16
      else None)"

fun BYTES_PER_ELEMENT :: "typedArrayKind \<Rightarrow> nat" where
  "BYTES_PER_ELEMENT Int8Array = 1"
| "BYTES_PER_ELEMENT Uint8Array = 1"
| "BYTES_PER_ELEMENT Int16Array = 2"
| "BYTES_PER_ELEMENT Uint16Array = 2"
| "BYTES_PER_ELEMENT Uint32Array = 4"
| "BYTES_PER_ELEMENT Float32Array = 4"

text \<open>
  An element of a typed array is an integer or, in a \<^verbatim>\<open>Float32Array\<close>, a 32-bit float,
  kept as its bit pattern (reading a float and storing it again keeps the pattern, but for
  the payload of a NaN, which is not modelled). Multi-byte elements are little-endian, in a
  \<^verbatim>\<open>DataView\<close> read with \<^verbatim>\<open>littleEndian = true\<close> and in a typed array view on every
  platform the viewer runs on.
\<close>

datatype element = IntElem int | FloatBits "32 word"

record typedArray =
  kind :: typedArrayKind
  elems :: "element list"

definition getUint8 :: "byte list \<Rightarrow> nat \<Rightarrow> int" where
  "getUint8 b off = uint (b ! off)"

definition getUint16 :: "byte list \<Rightarrow> nat \<Rightarrow> int" where
  "getUint16 b off = uint (b ! off) + 256 * uint (b ! (off + 1))"

definition getUint32 :: "byte list \<Rightarrow> nat \<Rightarrow> int" where
  "getUint32 b off =
     uint (b ! off) + 256 * uint (b ! (off + 1)) + 65536 * uint (b ! (off + 2))
     + 16777216 * uint (b ! (off + 3))"

definition getFloat32 :: "byte list \<Rightarrow> nat \<Rightarrow> 32 word" where
  "getFloat32 b off = word_of_int (getUint32 b off)"

definition toInt8 :: "int \<Rightarrow> int" where
  "toInt8 v = (if v \<ge> 128 then v - 256 else v)"

definition toInt16 :: "int \<Rightarrow> int" where
  "toInt16 v = (if v \<ge> 32768 then v - 65536 else v)"

text \<open>The element that a typed array view of the kind has at a byte offset of the buffer.\<close>

fun viewElement :: "typedArrayKind \<Rightarrow> byte list \<Rightarrow> nat \<Rightarrow> element" where
  "viewElement Int8Array b off = IntElem (toInt8 (getUint8 b off))"
| "viewElement Uint8Array b off = IntElem (getUint8 b off)"
| "viewElement Int16Array b off = IntElem (toInt16 (getUint16 b off))"
| "viewElement Uint16Array b off = IntElem (getUint16 b off)"
| "viewElement Uint32Array b off = IntElem (getUint32 b off)"
| "viewElement Float32Array b off = FloatBits (getFloat32 b off)"

text \<open>
  \<^verbatim>\<open>new TypedArray(buffer, byteOffset, length)\<close>: a view of the buffer; a RangeError
  when the offset is no multiple of the element size or the view does not fit.
\<close>

definition TypedArray_view :: "typedArrayKind \<Rightarrow> byte list \<Rightarrow> nat \<Rightarrow> nat \<Rightarrow> error + typedArray" where
  "TypedArray_view k buf byteOffset len =
     (if byteOffset mod BYTES_PER_ELEMENT k \<noteq> 0 then Inl RangeError
      else if byteOffset + len * BYTES_PER_ELEMENT k > length buf then Inl RangeError
      else Inr \<lparr>kind = k,
                elems = map (\<lambda>i. viewElement k buf (byteOffset + i * BYTES_PER_ELEMENT k))
                          [0..<len]\<rparr>)"

text \<open>\<^verbatim>\<open>new TypedArray(n)\<close>: n elements, all zero.\<close>

definition zeroElement :: "typedArrayKind \<Rightarrow> element" where
  "zeroElement k = (if k = Float32Array then FloatBits 0 else IntElem 0)"

text \<open>
  The chain of tests on the array type in \<^verbatim>\<open>_extractInterleavedData\<close>: what is read
  from the \<^verbatim>\<open>DataView\<close> and stored, or nothing when no test matches.
\<close>

fun interleavedRead :: "typedArrayKind \<Rightarrow> byte list \<Rightarrow> nat \<Rightarrow> element option" where
  "interleavedRead Float32Array b off = Some (FloatBits (getFloat32 b off))"
| "interleavedRead Uint16Array b off = Some (IntElem (getUint16 b off))"
| "interleavedRead Uint32Array b off = Some (IntElem (getUint32 b off))"
| "interleavedRead Uint8Array b off = Some (IntElem (getUint8 b off))"
| "interleavedRead Int8Array b off = None"
| "interleavedRead Int16Array b off = None"

text \<open>
  The two loops of \<^verbatim>\<open>_extractInterleavedData\<close>. Creating the \<^verbatim>\<open>DataView\<close> of the
  element throws a RangeError when the element does not lie within the buffer.
\<close>

function extract_components ::
    "typedArrayKind \<Rightarrow> binData \<Rightarrow> nat \<Rightarrow> nat \<Rightarrow> nat \<Rightarrow> nat \<Rightarrow> element list \<Rightarrow> error + element list" where
  "extract_components k bin srcOffset components i j result =
     (if j < components then
        (let elementSize = BYTES_PER_ELEMENT k;
             off = bin_byteOffset bin + srcOffset + j * elementSize
         in if off + elementSize \<le> length (buffer bin)
            then extract_components k bin srcOffset components i (Suc j)
                   (case interleavedRead k (buffer bin) off of
                      Some v \<Rightarrow> result[i * components + j := v]
                    | None \<Rightarrow> result)
            else Inl RangeError)
      else Inr result)"
  by pat_completeness auto
termination
  by (relation "measure (\<lambda>(k, bin, srcOffset, components, i, j, result). components - j)") auto

function extract_elements ::
    "typedArrayKind \<Rightarrow> binData \<Rightarrow> nat \<Rightarrow> nat \<Rightarrow> nat \<Rightarrow> nat \<Rightarrow> nat \<Rightarrow> element list \<Rightarrow> error + element list" where
  "extract_elements k bin byteOffset count components byteStride i result =
     (if i < count then
        (let srcOffset = byteOffset + i * byteStride
         in case extract_components k bin srcOffset components i 0 result of
              Inl e \<Rightarrow> Inl e
            | Inr result' \<Rightarrow>
                extract_elements k bin byteOffset count components byteStride (Suc i) result')
      else Inr result)"
  by pat_completeness auto
termination
  by (relation "measure (\<lambda>(k, bin, byteOffset, count, components, byteStride, i, result). count - i)")
    auto

definition extractInterleavedData ::
    "binData \<Rightarrow> nat \<Rightarrow> nat \<Rightarrow> nat \<Rightarrow> nat \<Rightarrow> typedArrayKind \<Rightarrow> error + typedArray" where
  "extractInterleavedData bin byteOffset count components byteStride k =
     bindE (extract_elements k bin byteOffset count components byteStride 0
              (replicate (count * components) (zeroElement k)))
       (\<lambda>result. Inr \<lparr>kind = k, elems = result\<rparr>)"

text \<open>
  The accessors and buffer views of the document, with the fields that
  \<^verbatim>\<open>getAccessorData\<close> reads; an optional field that is absent is \<open>None\<close>.
\<close>

record accessor =
  bufferView :: nat
  acc_byteOffset :: "nat option"
  componentType :: nat
  accessorType :: string
  count :: nat

record bufferView =
  bv_buffer :: "nat option"
  bv_byteOffset :: "nat option"
  bv_byteStride :: "nat option"

record gltf =
  accessors :: "accessor list"
  bufferViews :: "bufferView list"

text \<open>\<^verbatim>\<open>x || 0\<close> for an optional number.\<close>

definition or0 :: "nat option \<Rightarrow> nat" where
  "or0 x = (case x of Some n \<Rightarrow> n | None \<Rightarrow> 0)"

text \<open>
  \<^verbatim>\<open>GLTFLoader.getAccessorData(gltf, buffers, accessorIndex)\<close>. A missing accessor,
  buffer view, array type or buffer makes a property access throw a TypeError. An accessor
  type that the table does not have gives \<^verbatim>\<open>undefined\<close> components, with which every
  product is NaN and every array length 0: in effect 0 components.
\<close>

definition getAccessorData :: "gltf \<Rightarrow> binData list \<Rightarrow> nat \<Rightarrow> error + typedArray" where
  "getAccessorData g buffers accessorIndex =
     (if accessorIndex < length (accessors g) then
        (let acc = accessors g ! accessorIndex
         in if bufferView acc < length (bufferViews g) then
              (let bv = bufferViews g ! bufferView acc;
                   bufferIndex = or0 (bv_buffer bv);
                   byteOffset = or0 (bv_byteOffset bv) + or0 (acc_byteOffset acc);
                   components = or0 (TYPE_COMPONENTS (accessorType acc));
                   byteStride = or0 (bv_byteStride bv)
               in case COMPONENT_TYPE_ARRAYS (componentType acc) of
                    None \<Rightarrow> Inl TypeError
                  | Some k \<Rightarrow>
                      if bufferIndex < length buffers then
                        (let bin = buffers ! bufferIndex
                         in if byteStride \<noteq> 0 \<and> byteStride \<noteq> components * BYTES_PER_ELEMENT k
                            then extractInterleavedData bin byteOffset (count acc) components
                                   byteStride k
                            else TypedArray_view k (buffer bin) (bin_byteOffset bin + byteOffset)
                                   (count acc * components))
                      else Inl TypeError)
            else Inl TypeError)
      else Inl TypeError)"

section \<open>Rendering (core/Renderer.js, shaders/main.wgsl)\<close>

text \<open>
  The uniform data of a draw is an \<^verbatim>\<open>ArrayBuffer\<close> of 368 bytes, written through a
  \<^verbatim>\<open>Float32Array\<close> and a \<^verbatim>\<open>Uint32Array\<close> view of it. Both views have 4-byte
  elements, so element k of either view is the four bytes from byte offset \<open>4 * k\<close>. The
  buffer is modelled as its 92 four-byte cells; a cell holds the float or the unsigned
  integer last written there (the bit patterns are not modelled). A fresh buffer is all zero
  bytes, which is the unsigned integer 0 (and the float 0).
\<close>

datatype cell = F32 real | F32_NaN | U32 nat

definition ArrayBuffer_new :: "nat \<Rightarrow> cell list" where
  "ArrayBuffer_new byteLength = replicate (byteLength div 4) (U32 0)"

text \<open>\<^verbatim>\<open>floatView.set(src, offset)\<close>, and the float read from \<^verbatim>\<open>src[i]\<close>.\<close>

definition floatView_set :: "cell list \<Rightarrow> real list \<Rightarrow> nat \<Rightarrow> error + cell list" where
  "floatView_set u src off = typed_set u (map F32 src) off"

definition float_at :: "real list \<Rightarrow> nat \<Rightarrow> cell" where
  "float_at xs i = (if i < length xs then F32 (xs ! i) else F32_NaN)"

definition flag :: "bool \<Rightarrow> cell" where
  "flag b = U32 (if b then 1 else 0)"

text \<open>The cells of a buffer from a byte offset (a multiple of 4).\<close>

definition cells_at :: "cell list \<Rightarrow> nat \<Rightarrow> nat \<Rightarrow> cell list" where
  "cells_at u byteOffset n = subarray u (byteOffset div 4) (byteOffset div 4 + n)"

definition DEFAULT_LIGHT_DIR :: "real list" where
  "DEFAULT_LIGHT_DIR = [1, 1, 1, 0]"

record renderer =
  viewMatrix :: mat4
  projectionMatrix :: mat4
  normalMatrix :: mat4

text \<open>The uniform data that \<^verbatim>\<open>_drawPrimitive\<close> packs and writes to the uniform buffer.\<close>

definition uniformData :: "renderer \<Rightarrow> primitive \<Rightarrow> mat4 \<Rightarrow> skin option \<Rightarrow> error + cell list" where
  "uniformData R p modelMatrix sk =
     bindE (floatView_set (ArrayBuffer_new 368) modelMatrix 0) (\<lambda>u.
     bindE (floatView_set u (viewMatrix R) 16) (\<lambda>u.
     bindE (floatView_set u (projectionMatrix R) 32) (\<lambda>u.
     bindE (floatView_set u (normalMatrix R) 48) (\<lambda>u.
     bindE (floatView_set u DEFAULT_LIGHT_DIR 64) (\<lambda>u.
     bindE (floatView_set u (baseColor p) 68) (\<lambda>u.
     Inr (u[72 := flag (hasSkinning p \<and> sk \<noteq> None),
            73 := flag (hasTexture p),
            74 := flag (hasNormals p),
            75 := flag (hasMetallicRoughnessTexture p),
            76 := F32 (metallicFactor p),
            77 := F32 (roughnessFactor p),
            78 := F32 (normalScale p),
            79 := flag (hasNormalTexture p),
            80 := float_at (emissiveFactor p) 0,
            81 := float_at (emissiveFactor p) 1,
            82 := float_at (emissiveFactor p) 2,
            83 := (if 3 < length (emissiveFactor p) then F32 (emissiveFactor p ! 3) else F32 1),
            84 := flag (hasEmissiveTexture p)])))))))"

text \<open>
  \<^verbatim>\<open>_drawPrimitive(renderPass, instance, modelMatrix, skin)\<close>: what it writes to the
  uniform buffer and, for a skinned primitive with a skin, to the joint matrices buffer.
\<close>

definition drawPrimitive ::
    "renderer \<Rightarrow> primitiveInstance \<Rightarrow> mat4 \<Rightarrow> skin option \<Rightarrow> error + cell list \<times> real list option" where
  "drawPrimitive R inst modelMatrix sk =
     bindE (uniformData R (primitive inst) modelMatrix sk) (\<lambda>u.
       case (if hasSkinning (primitive inst) then sk else None) of
         Some s \<Rightarrow> bindE (getMatricesArray s MAX_JOINTS) (\<lambda>jointData. Inr (u, Some jointData))
       | None \<Rightarrow> Inr (u, None))"

text \<open>
  The layout of a WGSL structure: each member has an alignment and a size, and is placed at
  the first multiple of its alignment at or after the end of the member before it; the size
  of the structure is the end of the last member rounded up to the largest alignment.
\<close>

datatype wgsl_type = f32 | u32 | vec3_u32 | vec4_f32 | vec4_u32 | mat4x4_f32

fun AlignOf :: "wgsl_type \<Rightarrow> nat" where
  "AlignOf f32 = 4"
| "AlignOf u32 = 4"
| "AlignOf vec3_u32 = 16"
| "AlignOf vec4_f32 = 16"
| "AlignOf vec4_u32 = 16"
| "AlignOf mat4x4_f32 = 16"

fun SizeOf :: "wgsl_type \<Rightarrow> nat" where
  "SizeOf f32 = 4"
| "SizeOf u32 = 4"
| "SizeOf vec3_u32 = 12"
| "SizeOf vec4_f32 = 16"
| "SizeOf vec4_u32 = 16"
| "SizeOf mat4x4_f32 = 64"

definition roundUp :: "nat \<Rightarrow> nat \<Rightarrow> nat" where
  "roundUp k n = ((n + k - 1) div k) * k"

fun member_offsets :: "nat \<Rightarrow> (string \<times> wgsl_type) list \<Rightarrow> (string \<times> nat) list" where
  "member_offsets cur [] = []"
| "member_offsets cur ((name, ty) # ms) =
     (let off = roundUp (AlignOf ty) cur in (name, off) # member_offsets (off + SizeOf ty) ms)"

fun struct_end :: "nat \<Rightarrow> (string \<times> wgsl_type) list \<Rightarrow> nat" where
  "struct_end cur [] = cur"
| "struct_end cur ((name, ty) # ms) = struct_end (roundUp (AlignOf ty) cur + SizeOf ty) ms"

definition struct_size :: "(string \<times> wgsl_type) list \<Rightarrow> nat" where
  "struct_size ms = roundUp (Max (set (map (\<lambda>(name, ty). AlignOf ty) ms))) (struct_end 0 ms)"

text \<open>The structure \<^verbatim>\<open>Uniforms\<close> of shaders/main.wgsl.\<close>

definition Uniforms :: "(string \<times> wgsl_type) list" where
  "Uniforms =
     [(''modelMatrix'', mat4x4_f32), (''viewMatrix'', mat4x4_f32),
      (''projectionMatrix'', mat4x4_f32), (''normalMatrix'', mat4x4_f32),
      (''lightDir'', vec4_f32), (''baseColor'', vec4_f32), (''flags'', vec4_u32),
      (''metallicFactor'', f32), (''roughnessFactor'', f32), (''normalScale'', f32),
      (''hasNormalTexture'', u32), (''emissiveFactor'', vec4_f32),
      (''hasEmissiveTexture'', u32), (''padding2'', vec3_u32)]"

text \<open>The byte offset of a member of \<^verbatim>\<open>Uniforms\<close> (0 for a name it does not have).\<close>

definition offset_of :: "string \<Rightarrow> nat" where
  "offset_of name = (case map_of (member_offsets 0 Uniforms) name of Some off \<Rightarrow> off | None \<Rightarrow> 0)"

text \<open>
  The draw walk of \<^verbatim>\<open>_drawModel\<close>. A model is its node hierarchy, its meshes and the
  skins of its skin manager. The walk changes the renderer's normal matrix and calls
  \<^verbatim>\<open>_drawPrimitive\<close>; each call is recorded with its arguments, with what it writes,
  and with the index of the node being drawn. An exception ends the walk and keeps the calls
  made so far. Like the update of the world matrices, the recursion carries fuel.
\<close>

record model =
  nodeHierarchy :: nodeHierarchy
  meshes :: "mesh list"
  skins :: "skin list"

record drawCall =
  dc_node :: nat
  dc_instance :: primitiveInstance
  dc_modelMatrix :: mat4
  dc_skin :: "skin option"
  dc_uniforms :: "cell list"
  dc_jointData :: "real list option"

type_synonym drawState = "renderer \<times> drawCall list"

text \<open>The loop \<^verbatim>\<open>for (const instance of node.primitiveInstances)\<close>.\<close>

primrec drawInstances ::
    "nat \<Rightarrow> mat4 \<Rightarrow> skin option \<Rightarrow> primitiveInstance list \<Rightarrow> drawState \<Rightarrow> error option \<times> drawState" where
  "drawInstances i modelMatrix sk [] st = (None, st)"
| "drawInstances i modelMatrix sk (inst # rest) st =
     (case drawPrimitive (fst st) inst modelMatrix sk of
        Inl e \<Rightarrow> (Some e, st)
      | Inr (u, jointData) \<Rightarrow>
          drawInstances i modelMatrix sk rest
            (fst st, snd st @ [\<lparr>dc_node = i, dc_instance = inst, dc_modelMatrix = modelMatrix,
                                 dc_skin = sk, dc_uniforms = u, dc_jointData = jointData\<rparr>]))"

text \<open>
  The body of \<^verbatim>\<open>drawNode\<close> before it descends: nothing for a node without a mesh or
  without primitive instances.
\<close>

definition drawNodeMesh :: "model \<Rightarrow> nat \<Rightarrow> node \<Rightarrow> drawState \<Rightarrow> error option \<times> drawState" where
  "drawNodeMesh m i n st =
     (case (meshIndex n, primitiveInstances n) of
        (Some mi, Some insts) \<Rightarrow>
          (let sk = (case skinIndex n of
                       Some si \<Rightarrow> SkinManager_get (skins m) si
                     | None \<Rightarrow> None)
           in if mi < length (meshes m) then
                (let anySkinning = list_ex hasSkinning (primitives (meshes m ! mi));
                     modelMatrix = (if anySkinning then mat4_create else worldMatrix n);
                     inverted = (case mat4_invert modelMatrix of
                                   Some inverse_m \<Rightarrow> inverse_m
                                 | None \<Rightarrow> normalMatrix (fst st));
                     R = (fst st)\<lparr>normalMatrix := mat4_transpose inverted\<rparr>
                 in drawInstances i modelMatrix sk insts (R, snd st))
              else (Some TypeError, st))
      | _ \<Rightarrow> (None, st))"

fun drawNode :: "nat \<Rightarrow> model \<Rightarrow> nat \<Rightarrow> drawState \<Rightarrow> (error option \<times> drawState) option"
  and drawEach :: "nat \<Rightarrow> model \<Rightarrow> nat list \<Rightarrow> drawState \<Rightarrow> (error option \<times> drawState) option"
where
  "drawNode 0 m i st = None"
| "drawNode (Suc fuel) m i st =
     (if i < length (nodes (nodeHierarchy m)) then
        (case drawNodeMesh m i (nodes (nodeHierarchy m) ! i) st of
           (Some e, st') \<Rightarrow> Some (Some e, st')
         | (None, st') \<Rightarrow> drawEach fuel m (children (nodes (nodeHierarchy m) ! i)) st')
      else Some (Some TypeError, st))"
| "drawEach fuel m [] st = Some (None, st)"
| "drawEach fuel m (i # is) st =
     (case drawNode fuel m i st of
        Some (None, st') \<Rightarrow> drawEach fuel m is st'
      | r \<Rightarrow> r)"

definition drawModel :: "nat \<Rightarrow> renderer \<Rightarrow> model \<Rightarrow> (error option \<times> drawState) option" where
  "drawModel fuel R m = drawEach fuel m (rootNodes (nodeHierarchy m)) (R, [])"

text \<open>
  The model matrix that the walk gives to every primitive instance of a mesh node: the
  identity when some primitive of the node's mesh uses skinning, the node's world matrix
  otherwise.
\<close>

definition effectiveModelMatrix :: "model \<Rightarrow> node \<Rightarrow> mat4" where
  "effectiveModelMatrix m n =
     (case meshIndex n of
        Some mi \<Rightarrow>
          (if list_ex hasSkinning (primitives (meshes m ! mi)) then mat4_create
           else worldMatrix n)
      | None \<Rightarrow> worldMatrix n)"

text \<open>
  A recorded call is as the walk is designed when it was made for a node of the model that
  carries a mesh, for one of the node's primitive instances, with the model matrix above.
\<close>

definition call_by_design :: "model \<Rightarrow> drawCall \<Rightarrow> bool" where
  "call_by_design m d =
     (dc_node d < length (nodes (nodeHierarchy m))
      \<and> dc_modelMatrix d = effectiveModelMatrix m (nodes (nodeHierarchy m) ! dc_node d)
      \<and> (\<exists>mi insts. meshIndex (nodes (nodeHierarchy m) ! dc_node d) = Some mi
            \<and> mi < length (meshes m)
            \<and> primitiveInstances (nodes (nodeHierarchy m) ! dc_node d) = Some insts
            \<and> dc_instance d \<in> set insts))"

section \<open>Example inputs\<close>

text \<open>
  An instance: a skin with the joints 1 and 0 and no inverse bind accessor, over two nodes
  whose world matrices are a translation by (0, 0, 5) and the identity. The joint matrices
  after the update are these two world matrices, in the order of the joints.
\<close>

definition c1_nodes :: "node list" where
  "c1_nodes =
     [\<lparr>translation = [0, 0, 5], rotation = [0, 0, 0, 1], scale = [1, 1, 1],
       meshIndex = None, skinIndex = None, children = [1],
       matrix = mat4_fromTranslation [0, 0, 5], worldMatrix = mat4_fromTranslation [0, 0, 5],
       hasOriginalMatrix = False, primitiveInstances = None\<rparr>,
      \<lparr>translation = [0, 0, 0], rotation = [0, 0, 0, 1], scale = [1, 1, 1],
       meshIndex = None, skinIndex = None, children = [],
       matrix = mat4_create, worldMatrix = mat4_create,
       hasOriginalMatrix = False, primitiveInstances = None\<rparr>]"

definition c1_skin :: skin where
  "c1_skin = Skin [1, 0] [mat4_create, mat4_create]"

text \<open>
  The channel of the specification's scenario: the times 0, 1, 2 with the translations
  (0, 0, 0), (1, 0, 0), (0, 0, 0); and a rotation channel whose times are not sorted.
\<close>

definition c2_channel :: animationChannel where
  "c2_channel =
     \<lparr>targetNode = 0, targetPath = ''translation'', times_arr = [0, 1, 2],
      values_arr = [0, 0, 0,  1, 0, 0,  0, 0, 0], interpolation = ''LINEAR''\<rparr>"

definition c2_node :: node where
  "c2_node =
     \<lparr>translation = [7, 7, 7], rotation = [0, 0, 0, 1], scale = [1, 1, 1],
      meshIndex = None, skinIndex = None, children = [],
      matrix = mat4_create, worldMatrix = mat4_create,
      hasOriginalMatrix = False, primitiveInstances = None\<rparr>"

definition c10_channel :: animationChannel where
  "c10_channel =
     \<lparr>targetNode = 0, targetPath = ''rotation'', times_arr = [1, 0, 4],
      values_arr = [0, 0, 0, 1,  0, 1, 0, 0,  1, 0, 0, 0], interpolation = ''LINEAR''\<rparr>"

text \<open>
  A channel with two keyframes, at \<open>3 / 2^53\<close> and at \<open>1 + 1 / 2^23\<close> (both 32-bit
  floats), and a time just below the second of them.
\<close>

definition c10_close_start :: real where
  "c10_close_start = 3 / 2 ^ 53"

definition c10_close_end :: real where
  "c10_close_end = 1 + 1 / 2 ^ 23"

definition c10_close_time :: real where
  "c10_close_time = 1 + 1 / 2 ^ 23 - 1 / 2 ^ 52"

definition c10_close_channel :: animationChannel where
  "c10_close_channel =
     \<lparr>targetNode = 0, targetPath = ''translation'',
      times_arr = [c10_close_start, c10_close_end],
      values_arr = [0, 0, 0,  1, 0, 0], interpolation = ''LINEAR''\<rparr>"

text \<open>A clip whose first channel targets a node that does not exist.\<close>

definition c8_animation :: animation where
  "c8_animation = \<lparr>channels = [c2_channel\<lparr>targetNode := 5\<rparr>, c2_channel], duration = 2\<rparr>"

text \<open>A renderer and a primitive with a base colour texture and a normal map.\<close>

definition c7_renderer :: renderer where
  "c7_renderer =
     \<lparr>viewMatrix = mat4_fromTranslation [0, 0, - 5], projectionMatrix = mat4_create,
      normalMatrix = mat4_create\<rparr>"

definition c7_primitive :: primitive where
  "c7_primitive =
     \<lparr>baseColor = [1, 1 / 2, 0, 1], hasTexture = True, metallicFactor = 1 / 4,
      roughnessFactor = 3 / 4, hasMetallicRoughnessTexture = False, normalScale = 2,
      hasNormalTexture = True, emissiveFactor = [0, 0, 0, 1], hasEmissiveTexture = False,
      hasSkinning = False, hasNormals = True\<rparr>"

text \<open>
  A model of two nodes. The mesh of the root has a skinned and an unskinned primitive; the
  mesh of its child has one unskinned primitive.
\<close>

definition c3_skinned :: primitive where
  "c3_skinned = c7_primitive\<lparr>hasSkinning := True\<rparr>"

definition c3_model :: model where
  "c3_model =
     \<lparr>nodeHierarchy =
        \<lparr>nodes =
           [\<lparr>translation = [0, 0, 5], rotation = [0, 0, 0, 1], scale = [1, 1, 1],
             meshIndex = Some 0, skinIndex = None, children = [1],
             matrix = mat4_fromTranslation [0, 0, 5],
             worldMatrix = mat4_fromTranslation [0, 0, 5],
             hasOriginalMatrix = False,
             primitiveInstances =
               Some [\<lparr>primitive = c3_skinned\<rparr>, \<lparr>primitive = c7_primitive\<rparr>]\<rparr>,
            \<lparr>translation = [1, 0, 0], rotation = [0, 0, 0, 1], scale = [1, 1, 1],
             meshIndex = Some 1, skinIndex = None, children = [],
             matrix = mat4_fromTranslation [1, 0, 0],
             worldMatrix = mat4_fromTranslation [1, 0, 5],
             hasOriginalMatrix = False,
             primitiveInstances = Some [\<lparr>primitive = c7_primitive\<rparr>]\<rparr>],
         rootNodes = [0]\<rparr>,
      meshes = [\<lparr>primitives = [c3_skinned, c7_primitive]\<rparr>, \<lparr>primitives = [c7_primitive]\<rparr>],
      skins = []\<rparr>"

text \<open>
  The two-node hierarchy of the specification's scenario: a root translated by (0, 0, 5)
  with a child rotated by 90 degrees about the Y axis (as a unit quaternion).
\<close>

definition c6_hierarchy :: nodeHierarchy where
  "c6_hierarchy =
     \<lparr>nodes =
        [\<lparr>translation = [0, 0, 5], rotation = [0, 0, 0, 1], scale = [1, 1, 1],
          meshIndex = None, skinIndex = None, children = [1],
          matrix = mat4_create, worldMatrix = mat4_create,
          hasOriginalMatrix = False, primitiveInstances = None\<rparr>,
         \<lparr>translation = [0, 0, 0], rotation = [0, sqrt 2 / 2, 0, sqrt 2 / 2], scale = [1, 1, 1],
          meshIndex = None, skinIndex = None, children = [],
          matrix = mat4_create, worldMatrix = mat4_create,
          hasOriginalMatrix = False, primitiveInstances = None\<rparr>],
      rootNodes = [0]\<rparr>"

text \<open>
  A document with one scalar accessor of two elements over a buffer view with the byte
  stride 4, and its buffer of eight bytes: the 16-bit values 1 and 2, each followed by two
  bytes of another attribute. The component type is left open.
\<close>

definition c5_buffers :: "binData list" where
  "c5_buffers = [\<lparr>buffer = [1, 0, 9, 9, 2, 0, 9, 9], bin_byteOffset = 0\<rparr>]"

definition c5_gltf :: "nat \<Rightarrow> gltf" where
  "c5_gltf componentType' =
     \<lparr>accessors = [\<lparr>bufferView = 0, acc_byteOffset = None, componentType = componentType',
                    accessorType = ''SCALAR'', count = 2\<rparr>],
      bufferViews = [\<lparr>bv_buffer = Some 0, bv_byteOffset = None, bv_byteStride = Some 4\<rparr>]\<rparr>"

text \<open>
  A node object given by its matrix, and three matrices: a mirror in the x axis (the
  scale \<open>(-1, 1, 1)\<close>), a quarter turn about the z axis after the scale \<open>(2, 1, 1)\<close>,
  and the translation \<open>(1, 2, 3)\<close> after the scale \<open>(2, 3, 4)\<close>.
\<close>

definition c9_nodeData :: "mat4 \<Rightarrow> nodeData" where
  "c9_nodeData m =
     \<lparr>gltf_translation = None, gltf_rotation = None, gltf_scale = None, gltf_mesh = None,
      gltf_skin = None, gltf_children = None, gltf_matrix = Some m\<rparr>"

definition c9_mirror :: mat4 where
  "c9_mirror = [- 1, 0, 0, 0,  0, 1, 0, 0,  0, 0, 1, 0,  0, 0, 0, 1]"

definition c9_turned :: mat4 where
  "c9_turned = [0, 2, 0, 0,  - 1, 0, 0, 0,  0, 0, 1, 0,  0, 0, 0, 1]"

definition c9_scaled :: mat4 where
  "c9_scaled = [2, 0, 0, 0,  0, 3, 0, 0,  0, 0, 4, 0,  1, 2, 3, 1]"
section \<open>Serialising joint matrices\<close>

declare getMatricesArray_loop.simps [simp del]

lemma slot_concat:
  "\<forall>m \<in> set ms. length m = 16 \<Longrightarrow> i < length ms \<Longrightarrow> slot (concat ms @ rest) i = ms ! i"
proof (induction ms arbitrary: i)
  case Nil
  then show ?case by simp
next
  case (Cons m ms)
  show ?case
  proof (cases i)
    case 0
    with Cons.prems show ?thesis by (simp add: slot_def subarray_def)
  next
    case (Suc k)
    have "slot (concat ms @ rest) k = ms ! k"
      using Cons.IH [of k] Cons.prems Suc by simp
    with Cons.prems Suc show ?thesis by (simp add: slot_def subarray_def)
  qed
qed

lemma length_concat_16:
  "\<forall>m \<in> set ms. length m = 16 \<Longrightarrow> length (concat ms) = 16 * length ms"
  by (induction ms) auto

lemma slot_zero_tail:
  assumes "\<forall>m \<in> set ms. length m = 16" and "length ms \<le> i" and "i < length ms + k"
  shows "slot (concat ms @ replicate (k * 16) 0) i = replicate 16 0"
proof -
  have len: "length (concat ms) = 16 * length ms"
    using assms(1) by (rule length_concat_16)
  obtain j where j: "i = length ms + j" and jk: "j < k"
    using assms(2,3) by (metis add_less_cancel_left le_Suc_ex)
  have "(k - j) * 16 \<ge> 16" using jk by (cases "k - j") auto
  then have "min 16 (k * 16 - j * 16) = 16" by (simp add: diff_mult_distrib)
  then show ?thesis
    using len j by (simp add: slot_def subarray_def algebra_simps)
qed

lemma getMatricesArray_loop_inv:
  assumes "\<forall>m \<in> set jms. length m = 16" and "n \<le> length jms"
    and "n * 16 \<le> length data" and "i \<le> n"
  shows "getMatricesArray_loop jms n i data =
           Inr (take (i * 16) data @ concat (drop i (take n jms)) @ drop (n * 16) data)"
  using assms
proof (induction jms n i data rule: getMatricesArray_loop.induct)
  case (1 jms n i data)
  show ?case
  proof (cases "i < n")
    case False
    with "1.prems" have "i = n" by simp
    then show ?thesis by (simp add: getMatricesArray_loop.simps [of jms n n data])
  next
    case True
    have len: "length (jms ! i) = 16" using True "1.prems" by simp
    have fits: "i * 16 + 16 \<le> length data" using True "1.prems" by simp
    define data' where "data' = take (i * 16) data @ jms ! i @ drop (i * 16 + 16) data"
    have ts: "typed_set data (jms ! i) (i * 16) = Inr data'"
      using len fits by (simp add: typed_set_def data'_def)
    have ld: "length data' = length data"
      using len fits by (simp add: data'_def)
    have ih: "getMatricesArray_loop jms n (Suc i) data' =
        Inr (take (Suc i * 16) data' @ concat (drop (Suc i) (take n jms)) @ drop (n * 16) data')"
      using "1.IH" [OF True ts] "1.prems" True ld by simp
    have t1: "take (Suc i * 16) data' = take (i * 16) data @ jms ! i"
      using len fits by (simp add: data'_def)
    have "n * 16 \<ge> i * 16 + 16" using True by simp
    then have t2: "drop (n * 16) data' = drop (n * 16) data"
      using len fits by (simp add: data'_def)
    have t3: "drop i (take n jms) = jms ! i # drop (Suc i) (take n jms)"
      using True "1.prems" by (simp add: Cons_nth_drop_Suc [symmetric])
    show ?thesis
      using True ts ih t1 t2 t3
      by (simp add: getMatricesArray_loop.simps [of jms n i data])
  qed
qed

lemma getMatricesArray_closed:
  assumes "\<forall>m \<in> set (jointMatrices s). length m = 16"
  shows "getMatricesArray s cap =
           Inr (concat (take cap (jointMatrices s))
                @ replicate ((cap - length (jointMatrices s)) * 16) 0)"
proof -
  let ?jms = "jointMatrices s"
  let ?n = "min (length ?jms) cap"
  have "getMatricesArray_loop ?jms ?n 0 (replicate (cap * 16) 0) =
          Inr (take (0 * 16) (replicate (cap * 16) 0) @ concat (drop 0 (take ?n ?jms))
               @ drop (?n * 16) (replicate (cap * 16) 0))"
    by (rule getMatricesArray_loop_inv) (use assms in auto)
  moreover have "take ?n ?jms = take cap ?jms" by (simp add: min_def)
  moreover have "cap * 16 - ?n * 16 = (cap - length ?jms) * 16"
    by (simp add: min_def diff_mult_distrib)
  ultimately show ?thesis
    by (simp add: getMatricesArray_def Float32Array_new_def Let_def)
qed

text \<open>
  C4 (as the code has it). For every skin whose joint matrices are 4x4 (16 floats each,
  as the constructor makes them, one per joint) and every capacity,
  \<^verbatim>\<open>getMatricesArray(capacity)\<close> returns an array of exactly \<open>capacity * 16\<close> floats;
  slot i holds joint matrix i for every i below \<open>min jointCount capacity\<close>; joints at or
  beyond the capacity are dropped without an error; and every slot from the joint count
  up to the capacity is filled with zeros (the fresh \<^verbatim>\<open>Float32Array\<close> is never written
  there), not with the identity matrix.
\<close>

theorem getMatricesArray_layout:
  assumes "\<forall>m \<in> set (jointMatrices s). length m = 16"
    and "length (jointMatrices s) = length (joints s)"
  shows "\<exists>data. getMatricesArray s cap = Inr data
           \<and> length data = cap * 16
           \<and> (\<forall>i < min (jointCount s) cap. slot data i = jointMatrices s ! i)
           \<and> (\<forall>i. jointCount s \<le> i \<and> i < cap \<longrightarrow> slot data i = replicate 16 0)"
proof -
  let ?jms = "jointMatrices s"
  let ?data = "concat (take cap ?jms) @ replicate ((cap - length ?jms) * 16) 0"
  have all16: "\<forall>m \<in> set (take cap ?jms). length m = 16"
    using assms(1) by (meson in_set_takeD)
  have r: "getMatricesArray s cap = Inr ?data"
    using assms(1) by (rule getMatricesArray_closed)
  have "length (concat (take cap ?jms)) = 16 * min (length ?jms) cap"
    using length_concat_16 [OF all16] by simp
  then have l: "length ?data = cap * 16"
    by (simp add: min_def diff_mult_distrib)
  have a: "slot ?data i = ?jms ! i" if "i < min (jointCount s) cap" for i
    using slot_concat [OF all16, of i] that assms(2) by (simp add: jointCount_def)
  have b: "slot ?data i = replicate 16 0" if "jointCount s \<le> i" and "i < cap" for i
  proof -
    have "length (take cap ?jms) = length ?jms"
      using that assms(2) by (simp add: jointCount_def)
    then show ?thesis
      using slot_zero_tail [OF all16, of i "cap - length ?jms"] that assms(2)
      by (simp add: jointCount_def)
  qed
  show ?thesis using r l a b by blast
qed

theorem getMatricesArray_layout_witness:
  "\<exists>data. getMatricesArray (Skin [0] [mat4_create]) 2 = Inr data
           \<and> length data = 32
           \<and> slot data 0 = mat4_create
           \<and> slot data 1 = replicate 16 0"
proof -
  let ?s = "Skin [0] [mat4_create]"
  have h1: "\<forall>m \<in> set (jointMatrices ?s). length m = 16"
    by (simp add: Skin_def mat4_create_def)
  have h2: "length (jointMatrices ?s) = length (joints ?s)"
    by (simp add: Skin_def)
  from getMatricesArray_layout [OF h1 h2, of 2]
  obtain data where d: "getMatricesArray ?s 2 = Inr data" "length data = 2 * 16"
    "\<forall>i < min (jointCount ?s) 2. slot data i = jointMatrices ?s ! i"
    "\<forall>i. jointCount ?s \<le> i \<and> i < 2 \<longrightarrow> slot data i = replicate 16 0"
    by blast
  have "slot data 0 = jointMatrices ?s ! 0"
    using d(3) by (simp add: jointCount_def Skin_def)
  moreover have "slot data 1 = replicate 16 0"
    using d(4) by (simp add: jointCount_def Skin_def)
  ultimately show ?thesis using d(1,2) by (simp add: Skin_def)
qed

text \<open>
  The claim as the specification words it fails: with one joint and the capacity 180, slot 1
  of the array is sixteen zeros, which is not the identity matrix.
\<close>

theorem getMatricesArray_padding_counterexample:
  "getMatricesArray (Skin [0] [mat4_create]) MAX_JOINTS =
      Inr (mat4_create @ replicate 2864 0)
   \<and> slot (mat4_create @ replicate 2864 0) 1 = replicate 16 0
   \<and> replicate 16 0 \<noteq> mat4_create"
proof -
  have h: "\<forall>m \<in> set (jointMatrices (Skin [0] [mat4_create])). length m = 16"
    by (simp add: Skin_def mat4_create_def)
  have a: "getMatricesArray (Skin [0] [mat4_create]) MAX_JOINTS =
      Inr (mat4_create @ replicate 2864 0)"
    using getMatricesArray_closed [OF h, of MAX_JOINTS]
    by (simp add: Skin_def MAX_JOINTS_def)
  have "slot (concat [mat4_create] @ replicate (179 * 16) 0) 1 = replicate 16 0"
    by (rule slot_zero_tail) (simp_all add: mat4_create_def)
  then have b: "slot (mat4_create @ replicate 2864 0) 1 = replicate 16 0" by simp
  have c: "replicate 16 0 \<noteq> mat4_create"
    by (simp add: mat4_create_def numeral_eq_Suc)
  show ?thesis using a b c by simp
qed

section \<open>Rounding to double precision\<close>

declare expo_from.simps [simp del]

lemma round_even_of_int [simp]: "round_even (of_int n) = n"
  by (simp add: round_even_def)

lemma round_even_bounds: "of_int (round_even x) \<le> x + 1 / 2" "x - 1 / 2 \<le> of_int (round_even x)"
  unfolding round_even_def Let_def by (auto; linarith)+

lemma round_even_floor: "\<lfloor>x\<rfloor> \<le> round_even x" "round_even x \<le> \<lfloor>x\<rfloor> + 1"
  unfolding round_even_def Let_def by auto

lemma round_even_mono:
  assumes "x \<le> y" shows "round_even x \<le> round_even y"
proof (cases "\<lfloor>x\<rfloor> = \<lfloor>y\<rfloor>")
  case True
  then show ?thesis using assms unfolding round_even_def Let_def by auto
next
  case False
  then have "\<lfloor>x\<rfloor> < \<lfloor>y\<rfloor>" using floor_mono [OF assms] by simp
  then have "\<lfloor>x\<rfloor> + 1 \<le> \<lfloor>y\<rfloor>" by simp
  then show ?thesis using round_even_floor(2) [of x] round_even_floor(1) [of y] by linarith
qed

lemma round_even_minus: "round_even (- x) = - round_even x"
proof (cases "x = of_int \<lfloor>x\<rfloor>")
  case True
  then obtain n where "x = of_int n" by blast
  then have "- x = of_int (- n)" by simp
  then show ?thesis using \<open>x = of_int n\<close> by (simp only: round_even_of_int)
next
  case False
  have fl: "\<lfloor>- x\<rfloor> = - \<lfloor>x\<rfloor> - 1"
    using False by (simp add: floor_minus ceiling_altdef)
  show ?thesis
    unfolding round_even_def Let_def fl by auto
qed

lemma expo_from_spec:
  "emin \<le> expo_from emin e a
   \<and> expo_from emin e a \<le> max emin e
   \<and> (emin < expo_from emin e a \<longrightarrow> 2 powi (expo_from emin e a) \<le> a)
   \<and> (\<forall>k. expo_from emin e a < k \<and> k \<le> e \<longrightarrow> a < 2 powi k)"
proof (induction emin e a rule: expo_from.induct)
  case (1 emin e a)
  show ?case
  proof (cases "e \<le> emin")
    case True
    then show ?thesis by (simp add: expo_from.simps [of emin e a])
  next
    case False
    show ?thesis
    proof (cases "2 powi e \<le> a")
      case True
      with False show ?thesis by (simp add: expo_from.simps [of emin e a])
    next
      case False
      with \<open>\<not> e \<le> emin\<close> have eq: "expo_from emin e a = expo_from emin (e - 1) a"
        by (simp add: expo_from.simps [of emin e a])
      have ih: "emin \<le> expo_from emin (e - 1) a
        \<and> expo_from emin (e - 1) a \<le> max emin (e - 1)
        \<and> (emin < expo_from emin (e - 1) a \<longrightarrow> 2 powi (expo_from emin (e - 1) a) \<le> a)
        \<and> (\<forall>k. expo_from emin (e - 1) a < k \<and> k \<le> e - 1 \<longrightarrow> a < 2 powi k)"
        using "1.IH" \<open>\<not> e \<le> emin\<close> False by simp
      have "a < 2 powi k" if "expo_from emin (e - 1) a < k" "k \<le> e" for k
      proof (cases "k = e")
        case True
        then show ?thesis using False by simp
      next
        case False
        then show ?thesis using ih that by simp
      qed
      then show ?thesis unfolding eq using ih by auto
    qed
  qed
qed

lemma expo_from_eqI:
  assumes "emin < e" "e \<le> emax" "2 powi e \<le> a" "a < 2 powi (e + 1)"
  shows "expo_from emin emax a = e"
proof -
  let ?r = "expo_from emin emax a"
  note sp = expo_from_spec [of emin emax a]
  have "\<not> ?r < e"
  proof
    assume "?r < e"
    then have "a < 2 powi e" using sp assms(2) by blast
    with assms(3) show False by simp
  qed
  moreover have "\<not> e < ?r"
  proof
    assume l: "e < ?r"
    then have "emin < ?r" using assms(1) by simp
    then have "2 powi ?r \<le> a" using sp by blast
    moreover have "(2::real) powi (e + 1) \<le> 2 powi ?r"
      using l by (intro power_int_increasing) auto
    ultimately show False using assms(4) by simp
  qed
  ultimately show ?thesis by simp
qed

lemma expo_from_mono:
  assumes "a \<le> b" shows "expo_from emin emax a \<le> expo_from emin emax b"
proof (rule ccontr)
  let ?ra = "expo_from emin emax a" and ?rb = "expo_from emin emax b"
  assume "\<not> ?ra \<le> ?rb"
  then have l: "?rb < ?ra" by simp
  note sa = expo_from_spec [of emin emax a] and sb = expo_from_spec [of emin emax b]
  have "emin < ?ra" using l sb by linarith
  then have "2 powi ?ra \<le> a" using sa by blast
  moreover have "?ra \<le> emax" using sa \<open>emin < ?ra\<close> by (auto simp: max_def split: if_splits)
  then have "b < 2 powi ?ra" using sb l by blast
  ultimately show False using assms by simp
qed

lemma round_even_numeral [simp]: "round_even (numeral n) = numeral n"
  using round_even_of_int [of "numeral n"] by simp

lemma round_even_zero [simp]: "round_even 0 = 0"
  using round_even_of_int [of 0] by simp

lemma round_even_power [simp]: "round_even (2 ^ m) = 2 ^ m"
  using round_even_of_int [of "2 ^ m"] by simp

lemma round_to_minus: "round_to m emin emax (- x) = - round_to m emin emax x"
  by (simp add: round_to_def Let_def round_even_minus)

lemma round_to_zero [simp]: "round_to m emin emax 0 = 0"
  by (simp add: round_to_def Let_def)

lemma round_to_mono_nonneg:
  assumes "0 \<le> x" "x \<le> y"
  shows "round_to m emin emax x \<le> round_to m emin emax y"
proof -
  let ?ex = "expo_from emin emax \<bar>x\<bar>" and ?ey = "expo_from emin emax \<bar>y\<bar>"
  let ?qx = "(2::real) powi (?ex - int m)" and ?qy = "(2::real) powi (?ey - int m)"
  have xy: "\<bar>x\<bar> = x" "\<bar>y\<bar> = y" using assms by simp_all
  have le: "?ex \<le> ?ey" using assms by (intro expo_from_mono) simp
  have qx: "0 < ?qx" and qy: "0 < ?qy" by simp_all
  show ?thesis
  proof (cases "?ex = ?ey")
    case True
    have "x / ?qy \<le> y / ?qy" using assms(2) qy by (simp add: divide_right_mono)
    then have "round_even (x / ?qy) \<le> round_even (y / ?qy)" by (rule round_even_mono)
    then have "of_int (round_even (x / ?qy)) * ?qy \<le> of_int (round_even (y / ?qy)) * ?qy"
      using qy by (intro mult_right_mono) simp_all
    then show ?thesis unfolding round_to_def Let_def True .
  next
    case False
    with le have l: "?ex < ?ey" by simp
    note sx = expo_from_spec [of emin emax "\<bar>x\<bar>"] and sy = expo_from_spec [of emin emax "\<bar>y\<bar>"]
    have "emin < ?ey" using l sx by linarith
    then have ylow: "2 powi ?ey \<le> y" using sy xy by simp
    have "?ey \<le> emax" using sy \<open>emin < ?ey\<close> by (auto simp: max_def split: if_splits)
    then have xup: "x < 2 powi (?ex + 1)" using sx l xy by simp
    have ey: "(2::real) powi ?ey = 2 ^ m * ?qy"
      by (simp add: power_int_diff)
    have ex: "(2::real) powi (?ex + 1) = 2 ^ (m + 1) * ?qx"
      by (simp add: power_int_diff power_int_add)
    have "2 ^ m \<le> y / ?qy" using ylow qy unfolding ey by (simp add: pos_le_divide_eq)
    then have "round_even (2 ^ m) \<le> round_even (y / ?qy)" by (rule round_even_mono)
    then have "(of_int (2 ^ m) :: real) \<le> of_int (round_even (y / ?qy))"
      by (simp only: round_even_power of_int_le_iff)
    then have "2 ^ m * ?qy \<le> of_int (round_even (y / ?qy)) * ?qy"
      using qy by (intro mult_right_mono) simp_all
    then have ylow': "2 powi ?ey \<le> round_to m emin emax y"
      unfolding round_to_def Let_def ey .
    have "x / ?qx \<le> 2 ^ (m + 1)" using xup qx unfolding ex by (simp add: pos_divide_le_eq)
    then have "round_even (x / ?qx) \<le> round_even (2 ^ (m + 1))" by (rule round_even_mono)
    then have "(of_int (round_even (x / ?qx)) :: real) \<le> of_int (2 ^ (m + 1))"
      by (simp only: round_even_power of_int_le_iff)
    then have "of_int (round_even (x / ?qx)) * ?qx \<le> 2 ^ (m + 1) * ?qx"
      using qx by (intro mult_right_mono) simp_all
    then have xup': "round_to m emin emax x \<le> 2 powi (?ex + 1)"
      unfolding round_to_def Let_def ex .
    have "(2::real) powi (?ex + 1) \<le> 2 powi ?ey"
      using l by (intro power_int_increasing) auto
    with xup' ylow' show ?thesis by linarith
  qed
qed

lemma round_to_nonneg: "0 \<le> x \<Longrightarrow> 0 \<le> round_to m emin emax x"
  using round_to_mono_nonneg [of 0 x m emin emax] by simp

lemma round_to_mono:
  assumes "x \<le> y"
  shows "round_to m emin emax x \<le> round_to m emin emax y"
proof (cases "0 \<le> x")
  case True
  then show ?thesis using assms by (rule round_to_mono_nonneg)
next
  case False
  show ?thesis
  proof (cases "y \<le> 0")
    case True
    then have "round_to m emin emax (- y) \<le> round_to m emin emax (- x)"
      using assms by (intro round_to_mono_nonneg) simp_all
    then show ?thesis by (simp add: round_to_minus)
  next
    case y: False
    have "0 \<le> round_to m emin emax (- x)" using False by (intro round_to_nonneg) simp
    then have "round_to m emin emax x \<le> 0" by (simp add: round_to_minus)
    moreover have "0 \<le> round_to m emin emax y" using y by (intro round_to_nonneg) simp
    ultimately show ?thesis by simp
  qed
qed

lemma round_to_power:
  assumes "emin < e" "e \<le> emax"
  shows "round_to m emin emax (2 powi e) = 2 powi e"
proof -
  have "expo_from emin emax \<bar>2 powi e\<bar> = e"
    using assms by (intro expo_from_eqI) (auto intro!: power_int_strict_increasing)
  moreover have "(2::real) powi e / 2 powi (e - int m) = 2 ^ m"
    by (simp add: power_int_diff)
  ultimately show ?thesis
    by (simp add: round_to_def Let_def power_int_diff)
qed

lemma round_double_mono: "x \<le> y \<Longrightarrow> round_double x \<le> round_double y"
  unfolding round_double_def by (rule round_to_mono)

lemma round_double_zero [simp]: "round_double 0 = 0"
  by (simp add: round_double_def)

lemma round_double_one [simp]: "round_double 1 = 1"
  using round_to_power [of "- 1022" 0 1023 52] by (simp add: round_double_def)

lemma round_double_half [simp]: "round_double (1 / 2) = 1 / 2"
proof -
  have "round_double (2 powi (- 1)) = 2 powi (- 1)"
    unfolding round_double_def by (rule round_to_power) simp_all
  then show ?thesis by (simp add: power_int_minus)
qed

text \<open>
  How a rounding is evaluated once the binade of the number is known, without the search
  for the exponent.
\<close>

lemma round_double_binade:
  assumes "- 1022 < e" "e \<le> 1023" "2 powi e \<le> \<bar>x\<bar>" "\<bar>x\<bar> < 2 powi (e + 1)"
  shows "round_double x = of_int (round_even (x / 2 powi (e - 52))) * 2 powi (e - 52)"
  using expo_from_eqI [OF assms] by (simp add: round_double_def round_to_def Let_def)

lemma round_float32_binade:
  assumes "- 126 < e" "e \<le> 127" "2 powi e \<le> \<bar>x\<bar>" "\<bar>x\<bar> < 2 powi (e + 1)"
  shows "round_float32 x = of_int (round_even (x / 2 powi (e - 23))) * 2 powi (e - 23)"
  using expo_from_eqI [OF assms] by (simp add: round_float32_def round_to_def Let_def)

lemma is_float32_zero [simp]: "is_float32 0"
  by (simp add: is_float32_def round_float32_def)

lemma is_float32_power:
  assumes "- 126 < e" "e \<le> 127"
  shows "is_float32 (2 powi e)"
proof -
  have "(2::real) powi e < 2 powi 128"
    using assms by (intro power_int_strict_increasing) simp_all
  then have "\<bar>(2::real) powi e\<bar> < 2 ^ 128" by simp
  moreover have "round_float32 (2 powi e) = 2 powi e"
    unfolding round_float32_def using assms by (rule round_to_power)
  ultimately show ?thesis by (simp add: is_float32_def)
qed

text \<open>Every 32-bit float is a whole multiple of the least one, \<open>2 powi (- 149)\<close>.\<close>

lemma is_float32_multiple:
  assumes "is_float32 x"
  shows "\<exists>k. x = of_int k * 2 powi (- 149)"
proof -
  let ?e = "expo_from (- 126) 127 \<bar>x\<bar>"
  have e: "- 126 \<le> ?e" using expo_from_spec [of "- 126" 127 "\<bar>x\<bar>"] by simp
  have x: "x = of_int (round_even (x / 2 powi (?e - 23))) * 2 powi (?e - 23)"
    using assms by (simp add: is_float32_def round_float32_def round_to_def Let_def)
  have "(2::real) powi (?e - 23) = 2 powi (int (nat (?e + 126)) + (- 149))"
    using e by simp
  also have "\<dots> = of_int (2 ^ nat (?e + 126)) * 2 powi (- 149)"
    by (simp only: power_int_add [of "2::real", simplified] power_int_of_nat of_int_power
        of_int_numeral)
  finally have q: "(2::real) powi (?e - 23) = of_int (2 ^ nat (?e + 126)) * 2 powi (- 149)" .
  have "x = of_int (round_even (x / 2 powi (?e - 23)) * 2 ^ nat (?e + 126)) * 2 powi (- 149)"
    using x unfolding q [symmetric] by (simp add: q mult.assoc)
  then show ?thesis by blast
qed

text \<open>
  The difference of two distinct 32-bit floats does not round to zero: the divisor of the
  interpolation factor is positive.
\<close>

lemma js_sub_float32_pos:
  assumes "is_float32 a" "is_float32 b" "a < b"
  shows "0 < js_sub b a"
proof -
  from is_float32_multiple [OF assms(1)] obtain ka where a: "a = of_int ka * 2 powi (- 149)"
    by blast
  from is_float32_multiple [OF assms(2)] obtain kb where b: "b = of_int kb * 2 powi (- 149)"
    by blast
  have p: "(0::real) < 2 powi (- 149)" by simp
  have "of_int ka * (2::real) powi (- 149) < of_int kb * 2 powi (- 149)"
    using assms(3) unfolding a b .
  then have "(of_int ka :: real) < of_int kb" using p by (simp only: mult_less_cancel_right_pos)
  then have "ka + 1 \<le> kb" by simp
  then have "(of_int (ka + 1) :: real) \<le> of_int kb" by (simp only: of_int_le_iff)
  then have "of_int (ka + 1) * (2::real) powi (- 149) \<le> of_int kb * 2 powi (- 149)"
    using p by (intro mult_right_mono) simp_all
  then have "2 powi (- 149) \<le> b - a" unfolding a b by (simp add: algebra_simps)
  then have "round_double (2 powi (- 149)) \<le> round_double (b - a)" by (rule round_double_mono)
  moreover have "round_double (2 powi (- 149)) = 2 powi (- 149)"
    unfolding round_double_def by (rule round_to_power) simp_all
  ultimately show ?thesis using p unfolding js_sub_def by linarith
qed

text \<open>The interpolation factor of a bracket lies between 0 and 1, both included.\<close>

lemma js_factor_bounds:
  assumes "t0 \<le> t" "t < t1"
  shows "0 \<le> js_div (js_sub t t0) (js_sub t1 t0)" "js_div (js_sub t t0) (js_sub t1 t0) \<le> 1"
proof -
  let ?a = "js_sub t t0" and ?b = "js_sub t1 t0"
  have "round_double 0 \<le> ?a" unfolding js_sub_def using assms(1)
    by (intro round_double_mono) simp
  then have a: "0 \<le> ?a" by simp
  have ab: "?a \<le> ?b" unfolding js_sub_def using assms(2) by (intro round_double_mono) simp
  have q: "0 \<le> ?a / ?b" using a ab by simp
  have "?a / ?b \<le> 1"
  proof (cases "?b = 0")
    case True
    then show ?thesis by simp
  next
    case False
    then have "0 < ?b" using a ab by simp
    then show ?thesis using ab by simp
  qed
  then have "round_double (?a / ?b) \<le> round_double 1" by (rule round_double_mono)
  then show "js_div ?a ?b \<le> 1" by (simp add: js_div_def)
  have "round_double 0 \<le> round_double (?a / ?b)" using q by (rule round_double_mono)
  then show "0 \<le> js_div ?a ?b" by (simp add: js_div_def)
qed

section \<open>Joint matrices\<close>

declare updateMatrices_loop.simps [simp del]

lemma updateMatrices_loop_inv:
  assumes "\<forall>j \<in> set (joints s). j < length ns"
    and "length (jointMatrices s) = length (joints s)"
    and "length (inverseBindMatrices s) = length (joints s)"
  shows "\<exists>s'. updateMatrices_loop ns i s = Inr s'
           \<and> joints s' = joints s \<and> inverseBindMatrices s' = inverseBindMatrices s
           \<and> length (jointMatrices s') = length (joints s)
           \<and> (\<forall>k < length (joints s). jointMatrices s' ! k =
                 (if i \<le> k
                  then mat4_multiply (worldMatrix (ns ! (joints s ! k))) (inverseBindMatrices s ! k)
                  else jointMatrices s ! k))"
  using assms
proof (induction ns i s rule: updateMatrices_loop.induct)
  case (1 ns i s)
  show ?case
  proof (cases "i < length (joints s)")
    case False
    then show ?thesis
      using "1.prems" by (simp add: updateMatrices_loop.simps [of ns i s])
  next
    case True
    let ?m = "mat4_multiply (worldMatrix (ns ! (joints s ! i))) (inverseBindMatrices s ! i)"
    let ?s1 = "s\<lparr>jointMatrices := (jointMatrices s)[i := ?m]\<rparr>"
    have ok: "joints s ! i < length ns \<and> i < length (jointMatrices s)
        \<and> i < length (inverseBindMatrices s)"
      using True "1.prems" by simp
    have step: "updateMatrices_loop ns i s = updateMatrices_loop ns (Suc i) ?s1"
      using True ok by (simp add: updateMatrices_loop.simps [of ns i s])
    have "\<exists>s'. updateMatrices_loop ns (Suc i) ?s1 = Inr s'
           \<and> joints s' = joints ?s1 \<and> inverseBindMatrices s' = inverseBindMatrices ?s1
           \<and> length (jointMatrices s') = length (joints ?s1)
           \<and> (\<forall>k < length (joints ?s1). jointMatrices s' ! k =
                 (if Suc i \<le> k
                  then mat4_multiply (worldMatrix (ns ! (joints ?s1 ! k)))
                         (inverseBindMatrices ?s1 ! k)
                  else jointMatrices ?s1 ! k))"
      using "1.IH" [OF True ok] "1.prems" by simp
    then obtain s' where s': "updateMatrices_loop ns (Suc i) ?s1 = Inr s'"
      "joints s' = joints s" "inverseBindMatrices s' = inverseBindMatrices s"
      "length (jointMatrices s') = length (joints s)"
      "\<forall>k < length (joints s). jointMatrices s' ! k =
         (if Suc i \<le> k
          then mat4_multiply (worldMatrix (ns ! (joints s ! k))) (inverseBindMatrices s ! k)
          else (jointMatrices s)[i := ?m] ! k)"
      by auto
    have "jointMatrices s' ! k =
        (if i \<le> k
         then mat4_multiply (worldMatrix (ns ! (joints s ! k))) (inverseBindMatrices s ! k)
         else jointMatrices s ! k)" if "k < length (joints s)" for k
    proof (cases "k = i")
      case True
      then show ?thesis using s'(5) that ok by simp
    next
      case False
      then show ?thesis using s'(5) that by auto
    qed
    then show ?thesis using step s' by simp
  qed
qed

lemma Skin_fromGLTF_no_accessor:
  "gltf_inverseBindMatrices sd = None \<Longrightarrow>
     Skin_fromGLTF sd g =
       Inr (Skin (gltf_joints sd) (map (\<lambda>_. mat4_create) (gltf_joints sd)))"
  by (simp add: Skin_fromGLTF_def)

text \<open>
  C1. For every skin (with one joint matrix and one inverse bind matrix per joint, as the
  constructor and \<^verbatim>\<open>Skin.fromGLTF\<close> make it) whose joints are indices of the node array,
  \<^verbatim>\<open>updateMatrices(nodes)\<close> returns, and for every i below the joint count the i-th joint
  matrix is then the product of the world matrix of node \<open>joints[i]\<close> and
  \<open>inverseBindMatrices[i]\<close>. A skin read by \<^verbatim>\<open>Skin.fromGLTF\<close> from a document that
  declares no inverse bind accessor is such a skin, and each of its inverse bind matrices is
  the identity matrix.
\<close>

theorem updateMatrices_joint_matrices:
  assumes "\<forall>j \<in> set (joints s). j < length ns"
    and "length (jointMatrices s) = length (joints s)"
    and "length (inverseBindMatrices s) = length (joints s)"
  shows "(\<exists>s'. updateMatrices s ns = Inr s'
            \<and> (\<forall>i < jointCount s. jointMatrices s' ! i =
                  mat4_multiply (worldMatrix (ns ! (joints s ! i))) (inverseBindMatrices s ! i)))
         \<and> (\<forall>sd g. gltf_inverseBindMatrices sd = None \<longrightarrow>
              (\<exists>sk. Skin_fromGLTF sd g = Inr sk
                 \<and> joints sk = gltf_joints sd
                 \<and> length (jointMatrices sk) = length (joints sk)
                 \<and> length (inverseBindMatrices sk) = length (joints sk)
                 \<and> (\<forall>i < jointCount sk. inverseBindMatrices sk ! i = mat4_create)))"
proof
  from updateMatrices_loop_inv [OF assms, of 0]
  show "\<exists>s'. updateMatrices s ns = Inr s'
            \<and> (\<forall>i < jointCount s. jointMatrices s' ! i =
                  mat4_multiply (worldMatrix (ns ! (joints s ! i))) (inverseBindMatrices s ! i))"
    by (auto simp: updateMatrices_def jointCount_def)
next
  show "\<forall>sd g. gltf_inverseBindMatrices sd = None \<longrightarrow>
              (\<exists>sk. Skin_fromGLTF sd g = Inr sk
                 \<and> joints sk = gltf_joints sd
                 \<and> length (jointMatrices sk) = length (joints sk)
                 \<and> length (inverseBindMatrices sk) = length (joints sk)
                 \<and> (\<forall>i < jointCount sk. inverseBindMatrices sk ! i = mat4_create))"
    by (simp add: Skin_fromGLTF_no_accessor Skin_def jointCount_def)
qed

theorem updateMatrices_joint_matrices_witness:
  "(\<exists>sk. Skin_fromGLTF \<lparr>gltf_joints = [1, 0], gltf_inverseBindMatrices = None\<rparr>
            (\<lambda>_. Inl TypeError) = Inr sk
       \<and> joints sk = [1, 0]
       \<and> inverseBindMatrices sk ! 0 = mat4_create \<and> inverseBindMatrices sk ! 1 = mat4_create)
   \<and> (\<exists>s'. updateMatrices c1_skin c1_nodes = Inr s'
         \<and> jointMatrices s' ! 0 = mat4_create
         \<and> jointMatrices s' ! 1 = mat4_fromTranslation [0, 0, 5])"
proof -
  have h1: "\<forall>j \<in> set (joints c1_skin). j < length c1_nodes"
    by (simp add: c1_skin_def Skin_def c1_nodes_def)
  have h2: "length (jointMatrices c1_skin) = length (joints c1_skin)"
    by (simp add: c1_skin_def Skin_def)
  have h3: "length (inverseBindMatrices c1_skin) = length (joints c1_skin)"
    by (simp add: c1_skin_def Skin_def)
  note th0 = updateMatrices_joint_matrices [OF h1 h2 h3]
  from th0 obtain s' where s': "updateMatrices c1_skin c1_nodes = Inr s'"
    "\<forall>i < jointCount c1_skin. jointMatrices s' ! i =
        mat4_multiply (worldMatrix (c1_nodes ! (joints c1_skin ! i)))
          (inverseBindMatrices c1_skin ! i)"
    by blast
  have m0: "jointMatrices s' ! 0 = mat4_multiply mat4_create mat4_create"
    using s'(2) by (simp add: jointCount_def c1_skin_def Skin_def c1_nodes_def)
  have m1: "jointMatrices s' ! 1 = mat4_multiply (mat4_fromTranslation [0, 0, 5]) mat4_create"
    using s'(2) by (simp add: jointCount_def c1_skin_def Skin_def c1_nodes_def)
  have e0: "mat4_multiply mat4_create mat4_create = mat4_create"
    by (simp add: mat4_multiply_def mat4_create_def)
  have e1: "mat4_multiply (mat4_fromTranslation [0, 0, 5]) mat4_create
      = mat4_fromTranslation [0, 0, 5]"
    by (simp add: mat4_multiply_def mat4_create_def mat4_fromTranslation_def)
  have a: "\<exists>s'. updateMatrices c1_skin c1_nodes = Inr s'
         \<and> jointMatrices s' ! 0 = mat4_create
         \<and> jointMatrices s' ! 1 = mat4_fromTranslation [0, 0, 5]"
    using s'(1) m0 m1 e0 e1 by simp
  let ?sd = "\<lparr>gltf_joints = [1, 0], gltf_inverseBindMatrices = None\<rparr>"
  from th0 have "gltf_inverseBindMatrices ?sd = None \<longrightarrow>
      (\<exists>sk. Skin_fromGLTF ?sd (\<lambda>_. Inl TypeError) = Inr sk
         \<and> joints sk = gltf_joints ?sd
         \<and> length (jointMatrices sk) = length (joints sk)
         \<and> length (inverseBindMatrices sk) = length (joints sk)
         \<and> (\<forall>i < jointCount sk. inverseBindMatrices sk ! i = mat4_create))"
    by blast
  then obtain sk where sk: "Skin_fromGLTF ?sd (\<lambda>_. Inl TypeError) = Inr sk"
    "joints sk = [1, 0]" "\<forall>i < jointCount sk. inverseBindMatrices sk ! i = mat4_create"
    by auto
  have "inverseBindMatrices sk ! 0 = mat4_create" "inverseBindMatrices sk ! 1 = mat4_create"
    using sk(2,3) by (simp_all add: jointCount_def)
  with sk(1,2) have b: "\<exists>sk. Skin_fromGLTF ?sd (\<lambda>_. Inl TypeError) = Inr sk
       \<and> joints sk = [1, 0]
       \<and> inverseBindMatrices sk ! 0 = mat4_create \<and> inverseBindMatrices sk ! 1 = mat4_create"
    by blast
  show ?thesis using a b by blast
qed

section \<open>Keyframe search\<close>

declare findKeyframes_loop.simps [simp del]

lemma findKeyframes_loop_find:
  "findKeyframes_loop ts t i =
     (case find (\<lambda>j. ts ! j \<le> t \<and> t < ts ! (j + 1)) [i..<length ts - 1] of
        None \<Rightarrow> \<lparr>prevIndex = 0, nextIndex = 0, factor = 0\<rparr>
      | Some j \<Rightarrow> \<lparr>prevIndex = j, nextIndex = j + 1,
                   factor = js_div (js_sub t (ts ! j)) (js_sub (ts ! (j + 1)) (ts ! j))\<rparr>)"
proof (induction ts t i rule: findKeyframes_loop.induct)
  case (1 ts t i)
  show ?case
  proof (cases "i < length ts - 1")
    case False
    then show ?thesis by (simp add: findKeyframes_loop.simps [of ts t i])
  next
    case True
    then have u: "[i..<length ts - 1] = i # [Suc i..<length ts - 1]"
      by (simp add: upt_conv_Cons)
    show ?thesis
    proof (cases "t \<ge> ts ! i \<and> t < ts ! (i + 1)")
      case True
      with \<open>i < length ts - 1\<close> u show ?thesis
        by (simp add: findKeyframes_loop.simps [of ts t i] Let_def)
    next
      case False
      with \<open>i < length ts - 1\<close> u "1.IH" show ?thesis
        by (auto simp add: findKeyframes_loop.simps [of ts t i])
    qed
  qed
qed

lemma bracket_exists:
  fixes ts :: "real list"
  shows "i < n \<Longrightarrow> n < length ts \<Longrightarrow> ts ! i \<le> t \<Longrightarrow> t < ts ! n \<Longrightarrow>
     \<exists>j. i \<le> j \<and> j < n \<and> ts ! j \<le> t \<and> t < ts ! (j + 1)"
proof (induction n)
  case 0
  then show ?case by simp
next
  case (Suc m)
  show ?case
  proof (cases "ts ! m \<le> t")
    case True
    with Suc.prems show ?thesis by (intro exI [of _ m]) auto
  next
    case False
    with Suc.prems have "i < m" by (cases "i = m") auto
    have "t < ts ! m" using False by simp
    from Suc.IH [OF \<open>i < m\<close> _ Suc.prems(3) this] Suc.prems(2)
    obtain j where "i \<le> j" "j < m" "ts ! j \<le> t" "t < ts ! (j + 1)" by auto
    then show ?thesis by (intro exI [of _ j]) auto
  qed
qed

lemma bracket_unique:
  fixes ts :: "real list"
  assumes "sorted_wrt (<) ts" "j + 1 < length ts" "j' + 1 < length ts"
    "ts ! j \<le> t" "t < ts ! (j + 1)" "ts ! j' \<le> t" "t < ts ! (j' + 1)"
  shows "j = j'"
proof (rule ccontr)
  assume "j \<noteq> j'"
  then consider "j < j'" | "j' < j" by linarith
  then show False
  proof cases
    case 1
    then have "ts ! (j + 1) \<le> ts ! j'"
      using assms(1,3) sorted_wrt_nth_less [of "(<)" ts "j + 1" j'] by (cases "j + 1 = j'") auto
    with assms show False by linarith
  next
    case 2
    then have "ts ! (j' + 1) \<le> ts ! j"
      using assms(1,2) sorted_wrt_nth_less [of "(<)" ts "j' + 1" j] by (cases "j' + 1 = j") auto
    with assms show False by linarith
  qed
qed

lemma length3E:
  assumes "length a = 3" obtains x y z where "a = [x, y, z]"
  using assms by (auto simp: length_Suc_conv numeral_3_eq_3)

lemma length4E:
  assumes "length a = 4" obtains x y z w where "a = [x, y, z, w]"
proof -
  from assms have "length a = Suc (Suc (Suc (Suc 0)))" by simp
  then show ?thesis using that by (auto simp: length_Suc_conv)
qed

lemma vec3_lerp_same: "length a = 3 \<Longrightarrow> vec3_lerp a a 0 = a"
  by (erule length3E) (simp add: vec3_lerp_def)

lemma sin_arccos_pos: "0 \<le> c \<Longrightarrow> c < 1 \<Longrightarrow> sin (arccos c) > 0"
proof -
  assume c: "0 \<le> c" "c < 1"
  then have "c * c < 1 * 1" by (intro mult_strict_mono) auto
  then have "0 < 1 - c\<^sup>2" by (simp add: power2_eq_square)
  moreover have "sin (arccos c) = sqrt (1 - c\<^sup>2)"
    using c by (intro sin_arccos) auto
  ultimately show ?thesis by simp
qed

lemma quat_slerp_same:
  assumes "length a = 4" shows "quat_slerp a a 0 = a"
proof -
  from assms obtain x y z w where a: "a = [x, y, z, w]" by (rule length4E)
  define c where "c = x * x + y * y + z * z + w * w"
  have c0: "0 \<le> c" by (simp add: c_def)
  have s: "1 - c > EPSILON \<Longrightarrow> sin (arccos c) \<noteq> 0"
  proof -
    assume "1 - c > EPSILON"
    then have "c < 1" by (simp add: EPSILON_def)
    with c0 have "sin (arccos c) > 0" by (rule sin_arccos_pos)
    then show ?thesis by simp
  qed
  show ?thesis
    using c0 s by (simp add: quat_slerp_def a Let_def c_def [symmetric])
qed


lemma apply_channel_animated:
  assumes "targetPath ch \<in> {''rotation'', ''translation'', ''scale''}"
  shows "animated ch (apply_channel ch n t) =
           interpolate ch (keyValue ch (prevIndex (findKeyframes ch t)))
             (keyValue ch (nextIndex (findKeyframes ch t))) (factor (findKeyframes ch t))"
  using assms
  by (auto simp: animated_def apply_channel_def interpolate_def keyValue_def Let_def
      components_of_path_def applyRotation_def applyTranslation_def applyScale_def)

lemma interpolate_same:
  "length a = components_of_path (targetPath ch) \<Longrightarrow> interpolate ch a a 0 = a"
  by (auto simp: interpolate_def components_of_path_def vec3_lerp_same quat_slerp_same
      split: if_splits)

lemma key_in_bounds:
  fixes c :: nat
  assumes "i < n" and "len = c * n"
  shows "i * c + c \<le> len"
proof -
  have "Suc i * c \<le> n * c" using assms(1) by (intro mult_le_mono1) simp
  then show ?thesis using assms(2) by (simp add: mult.commute)
qed

lemma length_keyValue:
  assumes "i < length (times_arr ch)"
    and "length (values_arr ch) = components_of_path (targetPath ch) * length (times_arr ch)"
  shows "length (keyValue ch i) = components_of_path (targetPath ch)"
  using key_in_bounds [OF assms] by (simp add: keyValue_def subarray_def Let_def)

lemma findKeyframes_first:
  "times_arr ch \<noteq> [] \<Longrightarrow> t \<le> times_arr ch ! 0 \<Longrightarrow>
     findKeyframes ch (Num t) = \<lparr>prevIndex = 0, nextIndex = 0, factor = 0\<rparr>"
  by (simp add: findKeyframes_def)

lemma findKeyframes_last:
  assumes "times_arr ch \<noteq> []" and "sorted_wrt (<) (times_arr ch)"
    and "t \<ge> times_arr ch ! (length (times_arr ch) - 1)"
  shows "findKeyframes ch (Num t) =
     \<lparr>prevIndex = length (times_arr ch) - 1, nextIndex = length (times_arr ch) - 1, factor = 0\<rparr>"
proof (cases "t \<le> times_arr ch ! 0")
  case False
  then show ?thesis using assms by (simp add: findKeyframes_def Let_def)
next
  case True
  let ?ts = "times_arr ch"
  have "length ?ts - 1 = 0"
  proof (rule ccontr)
    assume "length ?ts - 1 \<noteq> 0"
    then have "?ts ! 0 < ?ts ! (length ?ts - 1)"
      using sorted_wrt_nth_less [OF assms(2), of 0 "length ?ts - 1"] assms(1) by simp
    with True assms(3) show False by simp
  qed
  then show ?thesis using True assms(1) by (simp add: findKeyframes_def)
qed

lemma findKeyframes_between:
  assumes "times_arr ch \<noteq> []" and "sorted_wrt (<) (times_arr ch)"
    and "times_arr ch ! 0 < t" and "t < times_arr ch ! (length (times_arr ch) - 1)"
  shows "\<exists>i. i + 1 < length (times_arr ch)
           \<and> times_arr ch ! i \<le> t \<and> t < times_arr ch ! (i + 1)
           \<and> (\<forall>j. j + 1 < length (times_arr ch) \<and> times_arr ch ! j \<le> t
                   \<and> t < times_arr ch ! (j + 1) \<longrightarrow> j = i)
           \<and> findKeyframes ch (Num t) =
               \<lparr>prevIndex = i, nextIndex = i + 1,
                factor = js_div (js_sub t (times_arr ch ! i))
                           (js_sub (times_arr ch ! (i + 1)) (times_arr ch ! i))\<rparr>"
proof -
  let ?ts = "times_arr ch"
  let ?P = "\<lambda>j. ?ts ! j \<le> t \<and> t < ?ts ! (j + 1)"
  have pos: "0 < length ?ts - 1"
    using assms(3,4) by (cases "length ?ts - 1") auto
  have "length ?ts - 1 < length ?ts" using assms(1) by simp
  moreover have "?ts ! 0 \<le> t" using assms(3) by simp
  ultimately obtain j0 where j0: "j0 < length ?ts - 1" "?P j0"
    using bracket_exists [of 0 "length ?ts - 1" ?ts t] pos assms(4) by blast
  then have "j0 \<in> set [0..<length ?ts - 1]" by simp
  with j0(2) have "find ?P [0..<length ?ts - 1] \<noteq> None"
    by (auto simp: find_None_iff)
  then obtain i where i: "find ?P [0..<length ?ts - 1] = Some i" by auto
  then have ib: "i < length ?ts - 1" and iP: "?P i"
    by (auto simp: find_Some_iff)
  have uniq: "j = i" if "j + 1 < length ?ts" "?P j" for j
    using bracket_unique [OF assms(2), of j i t] that ib iP by simp
  have "findKeyframes ch (Num t) = findKeyframes_loop ?ts t 0"
    using assms by (simp add: findKeyframes_def Let_def)
  then have "findKeyframes ch (Num t) =
      \<lparr>prevIndex = i, nextIndex = i + 1, factor = js_div (js_sub t (?ts ! i)) (js_sub (?ts ! (i + 1)) (?ts ! i))\<rparr>"
    using i by (simp add: findKeyframes_loop_find)
  then show ?thesis using ib iP uniq by (intro exI [of _ i]) auto
qed

text \<open>
  C2. For every channel of a rotation, a translation or a scale whose keyframe times are
  non-empty and strictly increasing, with one keyframe of values per time: at any t at or
  before the first keyframe time the search returns the first keyframe with factor 0 and the
  channel writes the first keyframe's value; at any t at or after the last keyframe time it
  returns the last keyframe with factor 0 and the channel writes the last keyframe's value;
  and for t strictly between there is exactly one i with \<open>times[i] \<le> t < times[i+1]\<close>,
  the search returns i and i + 1 with the factor
  \<open>(t - times[i]) / (times[i+1] - times[i])\<close> as JavaScript computes it (the two
  differences and their quotient in double precision), and the channel writes the
  interpolation of keyframes i and i + 1 at that factor.
\<close>

theorem findKeyframes_sampling:
  assumes ne: "times_arr ch \<noteq> []" and inc: "sorted_wrt (<) (times_arr ch)"
    and path: "targetPath ch \<in> {''rotation'', ''translation'', ''scale''}"
    and vals: "length (values_arr ch)
                 = components_of_path (targetPath ch) * length (times_arr ch)"
  shows "(t \<le> times_arr ch ! 0 \<longrightarrow>
            findKeyframes ch (Num t) = \<lparr>prevIndex = 0, nextIndex = 0, factor = 0\<rparr>
            \<and> animated ch (apply_channel ch n (Num t)) = keyValue ch 0)
       \<and> (t \<ge> times_arr ch ! (length (times_arr ch) - 1) \<longrightarrow>
            findKeyframes ch (Num t) =
              \<lparr>prevIndex = length (times_arr ch) - 1,
               nextIndex = length (times_arr ch) - 1, factor = 0\<rparr>
            \<and> animated ch (apply_channel ch n (Num t)) = keyValue ch (length (times_arr ch) - 1))
       \<and> (times_arr ch ! 0 < t \<and> t < times_arr ch ! (length (times_arr ch) - 1) \<longrightarrow>
            (\<exists>i. i + 1 < length (times_arr ch)
               \<and> times_arr ch ! i \<le> t \<and> t < times_arr ch ! (i + 1)
               \<and> (\<forall>j. j + 1 < length (times_arr ch) \<and> times_arr ch ! j \<le> t
                       \<and> t < times_arr ch ! (j + 1) \<longrightarrow> j = i)
               \<and> findKeyframes ch (Num t) =
                   \<lparr>prevIndex = i, nextIndex = i + 1,
                    factor = js_div (js_sub t (times_arr ch ! i))
                               (js_sub (times_arr ch ! (i + 1)) (times_arr ch ! i))\<rparr>
               \<and> animated ch (apply_channel ch n (Num t)) =
                   interpolate ch (keyValue ch i) (keyValue ch (i + 1))
                     (js_div (js_sub t (times_arr ch ! i))
                        (js_sub (times_arr ch ! (i + 1)) (times_arr ch ! i)))))"
proof (intro conjI impI)
  assume a: "t \<le> times_arr ch ! 0"
  show k: "findKeyframes ch (Num t) = \<lparr>prevIndex = 0, nextIndex = 0, factor = 0\<rparr>"
    using ne a by (rule findKeyframes_first)
  have "length (keyValue ch 0) = components_of_path (targetPath ch)"
    using ne vals by (intro length_keyValue) auto
  then show "animated ch (apply_channel ch n (Num t)) = keyValue ch 0"
    using apply_channel_animated [OF path, of n "Num t"] k by (simp add: interpolate_same)
next
  assume a: "t \<ge> times_arr ch ! (length (times_arr ch) - 1)"
  show k: "findKeyframes ch (Num t) =
      \<lparr>prevIndex = length (times_arr ch) - 1,
       nextIndex = length (times_arr ch) - 1, factor = 0\<rparr>"
    using ne inc a by (rule findKeyframes_last)
  have "length (keyValue ch (length (times_arr ch) - 1)) = components_of_path (targetPath ch)"
    using ne vals by (intro length_keyValue) auto
  then show "animated ch (apply_channel ch n (Num t)) = keyValue ch (length (times_arr ch) - 1)"
    using apply_channel_animated [OF path, of n "Num t"] k by (simp add: interpolate_same)
next
  assume a: "times_arr ch ! 0 < t \<and> t < times_arr ch ! (length (times_arr ch) - 1)"
  from findKeyframes_between [OF ne inc] a
  obtain i where i: "i + 1 < length (times_arr ch)"
    "times_arr ch ! i \<le> t" "t < times_arr ch ! (i + 1)"
    "\<forall>j. j + 1 < length (times_arr ch) \<and> times_arr ch ! j \<le> t
         \<and> t < times_arr ch ! (j + 1) \<longrightarrow> j = i"
    "findKeyframes ch (Num t) =
       \<lparr>prevIndex = i, nextIndex = i + 1,
        factor = js_div (js_sub t (times_arr ch ! i))
                           (js_sub (times_arr ch ! (i + 1)) (times_arr ch ! i))\<rparr>"
    by blast
  have "animated ch (apply_channel ch n (Num t)) =
      interpolate ch (keyValue ch i) (keyValue ch (i + 1))
        (js_div (js_sub t (times_arr ch ! i))
                        (js_sub (times_arr ch ! (i + 1)) (times_arr ch ! i)))"
    using apply_channel_animated [OF path, of n "Num t"] i(5) by simp
  with i show "\<exists>i. i + 1 < length (times_arr ch)
               \<and> times_arr ch ! i \<le> t \<and> t < times_arr ch ! (i + 1)
               \<and> (\<forall>j. j + 1 < length (times_arr ch) \<and> times_arr ch ! j \<le> t
                       \<and> t < times_arr ch ! (j + 1) \<longrightarrow> j = i)
               \<and> findKeyframes ch (Num t) =
                   \<lparr>prevIndex = i, nextIndex = i + 1,
                    factor = js_div (js_sub t (times_arr ch ! i))
                               (js_sub (times_arr ch ! (i + 1)) (times_arr ch ! i))\<rparr>
               \<and> animated ch (apply_channel ch n (Num t)) =
                   interpolate ch (keyValue ch i) (keyValue ch (i + 1))
                     (js_div (js_sub t (times_arr ch ! i))
                        (js_sub (times_arr ch ! (i + 1)) (times_arr ch ! i)))"
    by blast
qed


theorem findKeyframes_sampling_witness:
  "translation (apply_channel c2_channel c2_node (Num 0)) = [0, 0, 0]
   \<and> translation (apply_channel c2_channel c2_node (Num 3)) = [0, 0, 0]
   \<and> findKeyframes c2_channel (Num (3 / 2)) = \<lparr>prevIndex = 1, nextIndex = 2, factor = 1 / 2\<rparr>
   \<and> translation (apply_channel c2_channel c2_node (Num (3 / 2))) = [1 / 2, 0, 0]"
proof -
  have ne: "times_arr c2_channel \<noteq> []" by (simp add: c2_channel_def)
  have inc: "sorted_wrt (<) (times_arr c2_channel)" by (simp add: c2_channel_def)
  have path: "targetPath c2_channel \<in> {''rotation'', ''translation'', ''scale''}"
    by (simp add: c2_channel_def)
  have vals: "length (values_arr c2_channel)
      = components_of_path (targetPath c2_channel) * length (times_arr c2_channel)"
    by (simp add: c2_channel_def components_of_path_def)
  note th0 = findKeyframes_sampling [OF ne inc path vals]
  have a: "translation (apply_channel c2_channel c2_node (Num 0)) = [0, 0, 0]"
    using th0 [of 0 c2_node]
    by (simp add: c2_channel_def animated_def keyValue_def components_of_path_def subarray_def)
  have b: "translation (apply_channel c2_channel c2_node (Num 3)) = [0, 0, 0]"
    using th0 [of 3 c2_node]
    by (simp add: c2_channel_def animated_def keyValue_def components_of_path_def subarray_def)
  from th0 [of "3 / 2" c2_node]
  obtain i where i: "\<forall>j. j + 1 < length (times_arr c2_channel) \<and> times_arr c2_channel ! j \<le> 3 / 2
         \<and> 3 / 2 < times_arr c2_channel ! (j + 1) \<longrightarrow> j = i"
    "findKeyframes c2_channel (Num (3 / 2)) =
       \<lparr>prevIndex = i, nextIndex = i + 1,
        factor = js_div (js_sub (3 / 2) (times_arr c2_channel ! i))
                   (js_sub (times_arr c2_channel ! (i + 1)) (times_arr c2_channel ! i))\<rparr>"
    "animated c2_channel (apply_channel c2_channel c2_node (Num (3 / 2))) =
       interpolate c2_channel (keyValue c2_channel i) (keyValue c2_channel (i + 1))
         (js_div (js_sub (3 / 2) (times_arr c2_channel ! i))
            (js_sub (times_arr c2_channel ! (i + 1)) (times_arr c2_channel ! i)))"
    by (auto simp: c2_channel_def)
  have "1 = i" using i(1) [rule_format, of 1] by (simp add: c2_channel_def)
  then have i1: "i = 1" by simp
  have f: "js_div (js_sub (3 / 2) 1) (js_sub 2 1) = 1 / 2"
    by (simp add: js_div_def js_sub_def)
  have c: "findKeyframes c2_channel (Num (3 / 2))
      = \<lparr>prevIndex = 1, nextIndex = 2, factor = 1 / 2\<rparr>"
    using i(2) unfolding i1 by (simp add: c2_channel_def f)
  have d: "translation (apply_channel c2_channel c2_node (Num (3 / 2))) = [1 / 2, 0, 0]"
    using i(3) unfolding i1
    by (simp add: c2_channel_def animated_def keyValue_def components_of_path_def subarray_def
        interpolate_def vec3_lerp_def f)
  show ?thesis using a b c d by simp
qed

section \<open>Safety of the keyframe search\<close>

lemma findKeyframes_loop_safe:
  assumes "ts \<noteq> []"
  shows "prevIndex (findKeyframes_loop ts t i) < length ts
       \<and> nextIndex (findKeyframes_loop ts t i) < length ts
       \<and> (nextIndex (findKeyframes_loop ts t i) = prevIndex (findKeyframes_loop ts t i)
          \<or> nextIndex (findKeyframes_loop ts t i) = prevIndex (findKeyframes_loop ts t i) + 1)
       \<and> 0 \<le> factor (findKeyframes_loop ts t i) \<and> factor (findKeyframes_loop ts t i) \<le> 1
       \<and> (nextIndex (findKeyframes_loop ts t i) \<noteq> prevIndex (findKeyframes_loop ts t i)
            \<longrightarrow> ts ! prevIndex (findKeyframes_loop ts t i)
                   < ts ! nextIndex (findKeyframes_loop ts t i))"
proof (cases "find (\<lambda>j. ts ! j \<le> t \<and> t < ts ! (j + 1)) [i..<length ts - 1]")
  case None
  then show ?thesis using assms by (simp add: findKeyframes_loop_find)
next
  case (Some j)
  then have j: "j < length ts - 1" "ts ! j \<le> t" "t < ts ! (j + 1)"
    by (auto simp: find_Some_iff)
  then have "0 \<le> js_div (js_sub t (ts ! j)) (js_sub (ts ! (j + 1)) (ts ! j))"
    and "js_div (js_sub t (ts ! j)) (js_sub (ts ! (j + 1)) (ts ! j)) \<le> 1"
    by (simp_all add: js_factor_bounds)
  moreover have "j < length ts" "Suc j < length ts" using j(1) by simp_all
  moreover have "ts ! j < ts ! Suc j" using j(2,3) by simp
  ultimately show ?thesis using Some by (simp add: findKeyframes_loop_find)
qed

text \<open>
  Between two 32-bit floats, both differences of the factor are below \<open>2^129\<close> in
  magnitude, far from the overflow of double precision, which the rounding leaves out.
\<close>

lemma js_sub_float32_bound:
  assumes "is_float32 a" "is_float32 b" "a \<le> t" "t < b"
  shows "\<bar>t - a\<bar> < 2 ^ 129" "\<bar>b - a\<bar> < 2 ^ 129"
proof -
  have "\<bar>a\<bar> < 2 ^ 128" "\<bar>b\<bar> < 2 ^ 128" using assms(1,2) by (simp_all add: is_float32_def)
  then show "\<bar>t - a\<bar> < 2 ^ 129" "\<bar>b - a\<bar> < 2 ^ 129" using assms(3,4) by simp_all
qed

text \<open>
  C10, amended. The keyframe search is a total function of the channel and the time (NaN
  included). When the time array is non-empty and its entries are 32-bit floats, both
  indices the search returns are indices of the time array, the next index is the previous
  one or the one after it, and the factor, computed in double precision, is at least 0 and
  at most 1 (it can be 1, see the counterexample); when the two indices differ, the
  divisor of the factor is positive; and when the values array holds one keyframe per time,
  both slices that applying the channel reads lie within the values array.
\<close>

theorem findKeyframes_indices_safe:
  assumes "times_arr ch \<noteq> []" and "\<forall>x \<in> set (times_arr ch). is_float32 x"
  shows "prevIndex (findKeyframes ch t) < length (times_arr ch)
       \<and> nextIndex (findKeyframes ch t) < length (times_arr ch)
       \<and> (nextIndex (findKeyframes ch t) = prevIndex (findKeyframes ch t)
          \<or> nextIndex (findKeyframes ch t) = prevIndex (findKeyframes ch t) + 1)
       \<and> 0 \<le> factor (findKeyframes ch t) \<and> factor (findKeyframes ch t) \<le> 1
       \<and> (nextIndex (findKeyframes ch t) \<noteq> prevIndex (findKeyframes ch t)
            \<longrightarrow> 0 < js_sub (times_arr ch ! nextIndex (findKeyframes ch t))
                         (times_arr ch ! prevIndex (findKeyframes ch t)))
       \<and> (length (values_arr ch) = components_of_path (targetPath ch) * length (times_arr ch)
            \<longrightarrow> prevIndex (findKeyframes ch t) * components_of_path (targetPath ch)
                   + components_of_path (targetPath ch) \<le> length (values_arr ch)
              \<and> nextIndex (findKeyframes ch t) * components_of_path (targetPath ch)
                   + components_of_path (targetPath ch) \<le> length (values_arr ch))"
proof -
  let ?k = "findKeyframes ch t"
  let ?ts = "times_arr ch"
  have idx: "prevIndex ?k < length ?ts \<and> nextIndex ?k < length ?ts
       \<and> (nextIndex ?k = prevIndex ?k \<or> nextIndex ?k = prevIndex ?k + 1)
       \<and> 0 \<le> factor ?k \<and> factor ?k \<le> 1
       \<and> (nextIndex ?k \<noteq> prevIndex ?k \<longrightarrow> ?ts ! prevIndex ?k < ?ts ! nextIndex ?k)"
    using assms(1) findKeyframes_loop_safe [OF assms(1), of _ 0]
    by (cases t) (simp_all add: findKeyframes_def Let_def)
  have pos: "0 < js_sub (?ts ! nextIndex ?k) (?ts ! prevIndex ?k)"
    if "nextIndex ?k \<noteq> prevIndex ?k"
  proof -
    have "?ts ! prevIndex ?k \<in> set ?ts" "?ts ! nextIndex ?k \<in> set ?ts"
      using idx by (simp_all only: nth_mem)
    then have "is_float32 (?ts ! prevIndex ?k)" "is_float32 (?ts ! nextIndex ?k)"
      using assms(2) by blast+
    moreover have "?ts ! prevIndex ?k < ?ts ! nextIndex ?k" using idx that by blast
    ultimately show ?thesis by (intro js_sub_float32_pos)
  qed
  have "prevIndex ?k * components_of_path (targetPath ch)
                   + components_of_path (targetPath ch) \<le> length (values_arr ch)
              \<and> nextIndex ?k * components_of_path (targetPath ch)
                   + components_of_path (targetPath ch) \<le> length (values_arr ch)"
    if "length (values_arr ch) = components_of_path (targetPath ch) * length (times_arr ch)"
    using idx key_in_bounds [OF _ that] by blast
  with idx pos show ?thesis by blast
qed

lemma round_double_3: "round_double 3 = 3"
proof -
  have "round_double 3 = of_int (round_even (3 / 2 powi (1 - 52))) * 2 powi (1 - 52)"
    by (rule round_double_binade) simp_all
  then show ?thesis by (simp add: power_int_minus)
qed

lemma round_double_4: "round_double 4 = 4"
  using round_to_power [of "- 1022" 2 1023 52] by (simp add: round_double_def)

lemma round_double_3_4: "round_double (3 / 4) = 3 / 4"
proof -
  have "round_double (3 / 4) = of_int (round_even (3 / 4 / 2 powi (- 1 - 52))) * 2 powi (- 1 - 52)"
    by (rule round_double_binade) (simp_all add: power_int_minus)
  then show ?thesis by (simp add: power_int_minus)
qed

theorem findKeyframes_indices_safe_witness:
  "findKeyframes c10_channel (Num 3) = \<lparr>prevIndex = 1, nextIndex = 2, factor = 3 / 4\<rparr>
   \<and> 0 < js_sub (times_arr c10_channel ! 2) (times_arr c10_channel ! 1)
   \<and> prevIndex (findKeyframes c10_channel (Num 3)) * 4 + 4 \<le> length (values_arr c10_channel)
   \<and> nextIndex (findKeyframes c10_channel (Num 3)) * 4 + 4 \<le> length (values_arr c10_channel)
   \<and> findKeyframes c10_channel NaN = \<lparr>prevIndex = 0, nextIndex = 0, factor = 0\<rparr>"
proof -
  have ne: "times_arr c10_channel \<noteq> []" by (simp add: c10_channel_def)
  have "is_float32 1" "is_float32 4"
    using is_float32_power [of 0] is_float32_power [of 2] by simp_all
  then have f32: "\<forall>x \<in> set (times_arr c10_channel). is_float32 x"
    by (simp add: c10_channel_def)
  have vals: "length (values_arr c10_channel)
      = components_of_path (targetPath c10_channel) * length (times_arr c10_channel)"
    by (simp add: c10_channel_def components_of_path_def)
  have c: "components_of_path (targetPath c10_channel) = 4"
    by (simp add: c10_channel_def components_of_path_def)
  have k: "findKeyframes c10_channel (Num 3) = \<lparr>prevIndex = 1, nextIndex = 2, factor = 3 / 4\<rparr>"
    by (simp add: findKeyframes_def c10_channel_def findKeyframes_loop.simps [of _ _ 0]
        findKeyframes_loop.simps [of _ _ "Suc 0"] Let_def js_sub_def js_div_def
        round_double_3 round_double_4 round_double_3_4)
  have n: "findKeyframes c10_channel NaN = \<lparr>prevIndex = 0, nextIndex = 0, factor = 0\<rparr>"
    by (simp add: findKeyframes_def c10_channel_def)
  show ?thesis
    using findKeyframes_indices_safe [OF ne f32, of "Num 3"] vals k n unfolding c by simp
qed

text \<open>
  The factor is not always below 1. With keyframe times \<open>3 / 2^53\<close> and
  \<open>1 + 1 / 2^23\<close> and the time \<open>1 + 1 / 2^23 - 1 / 2^52\<close>, a double strictly between
  them that an animation of that duration passes on unchanged, the two differences
  \<open>t - startTime\<close> and \<open>endTime - startTime\<close> lie half-way between the same two
  doubles and both round to \<open>1 + 1 / 2^23 - 1 / 2^51\<close>: the factor is exactly 1.
\<close>

lemma c10_close_time_double: "is_double c10_close_time"
proof -
  have "round_double c10_close_time
      = of_int (round_even (c10_close_time / 2 powi (0 - 52))) * 2 powi (0 - 52)"
    by (rule round_double_binade) (simp_all add: c10_close_time_def)
  then have "round_double c10_close_time = c10_close_time"
    by (simp add: c10_close_time_def power_int_minus)
  then show ?thesis by (simp add: is_double_def c10_close_time_def)
qed

lemma c10_close_times_float32: "is_float32 c10_close_start" "is_float32 c10_close_end"
proof -
  have "round_float32 c10_close_start
      = of_int (round_even (c10_close_start / 2 powi (- 52 - 23))) * 2 powi (- 52 - 23)"
    by (rule round_float32_binade) (simp_all add: c10_close_start_def power_int_minus)
  then have "round_float32 c10_close_start = c10_close_start"
    by (simp add: c10_close_start_def power_int_minus)
  then show "is_float32 c10_close_start" by (simp add: is_float32_def c10_close_start_def)
  have "round_float32 c10_close_end
      = of_int (round_even (c10_close_end / 2 powi (0 - 23))) * 2 powi (0 - 23)"
    by (rule round_float32_binade) (simp_all add: c10_close_end_def)
  then have "round_float32 c10_close_end = c10_close_end"
    by (simp add: c10_close_end_def power_int_minus)
  then show "is_float32 c10_close_end" by (simp add: is_float32_def c10_close_end_def)
qed

lemma c10_close_differences:
  "js_sub c10_close_time c10_close_start = 1 + 1 / 2 ^ 23 - 1 / 2 ^ 51"
  "js_sub c10_close_end c10_close_start = 1 + 1 / 2 ^ 23 - 1 / 2 ^ 51"
proof -
  have "round_double (c10_close_time - c10_close_start)
      = of_int (round_even ((c10_close_time - c10_close_start) / 2 powi (0 - 52)))
          * 2 powi (0 - 52)"
    by (rule round_double_binade) (simp_all add: c10_close_time_def c10_close_start_def)
  then show "js_sub c10_close_time c10_close_start = 1 + 1 / 2 ^ 23 - 1 / 2 ^ 51"
    by (simp add: js_sub_def c10_close_time_def c10_close_start_def round_even_def
        power_int_minus)
  have "round_double (c10_close_end - c10_close_start)
      = of_int (round_even ((c10_close_end - c10_close_start) / 2 powi (0 - 52)))
          * 2 powi (0 - 52)"
    by (rule round_double_binade) (simp_all add: c10_close_end_def c10_close_start_def)
  then show "js_sub c10_close_end c10_close_start = 1 + 1 / 2 ^ 23 - 1 / 2 ^ 51"
    by (simp add: js_sub_def c10_close_end_def c10_close_start_def round_even_def
        power_int_minus)
qed

lemma c10_close_factor:
  "js_div (js_sub c10_close_time c10_close_start) (js_sub c10_close_end c10_close_start) = 1"
  unfolding c10_close_differences js_div_def by simp

theorem findKeyframes_factor_one_counterexample:
  "times_arr c10_close_channel = [c10_close_start, c10_close_end]
   \<and> is_float32 c10_close_start \<and> is_float32 c10_close_end
   \<and> is_double c10_close_time
   \<and> c10_close_start < c10_close_time \<and> c10_close_time < c10_close_end
   \<and> js_rem c10_close_time c10_close_end = Num c10_close_time
   \<and> (c10_close_time - c10_close_start) / (c10_close_end - c10_close_start) < 1
   \<and> findKeyframes c10_close_channel (Num c10_close_time)
       = \<lparr>prevIndex = 0, nextIndex = 1, factor = 1\<rparr>
   \<and> \<not> factor (findKeyframes c10_close_channel (Num c10_close_time)) < 1"
proof -
  have a: "times_arr c10_close_channel = [c10_close_start, c10_close_end]"
    by (simp add: c10_close_channel_def)
  have o: "c10_close_start < c10_close_time" "c10_close_time < c10_close_end"
    by (simp_all add: c10_close_time_def c10_close_start_def c10_close_end_def)
  have r: "js_rem c10_close_time c10_close_end = Num c10_close_time"
    by (simp add: js_rem_def c10_close_time_def c10_close_end_def)
  have k: "findKeyframes c10_close_channel (Num c10_close_time)
      = \<lparr>prevIndex = 0, nextIndex = 1, factor = 1\<rparr>"
    using o
    by (simp add: findKeyframes_def a findKeyframes_loop.simps [of _ _ 0] Let_def
        c10_close_factor)
  have q: "(c10_close_time - c10_close_start) / (c10_close_end - c10_close_start) < 1"
    by (simp add: c10_close_time_def c10_close_start_def c10_close_end_def)
  show ?thesis
    using a c10_close_times_float32 c10_close_time_double o r k q by simp
qed
section \<open>Updating a clip\<close>

lemma length_Animation_update_loop:
  "length (Animation_update_loop chs ns t) = length ns"
  by (induction chs arbitrary: ns) auto

text \<open>
  C8. An update of a clip at any time returns (it is a total function: nothing in it throws),
  and its result is that of the same clip without the channels whose target index is no
  index of the node array: such a channel writes nothing, and every other channel is applied,
  in order, to the node it targets.
\<close>

theorem Animation_update_skips_missing:
  "Animation_update a ns time =
     Animation_update
       (a\<lparr>channels := filter (\<lambda>channel. targetNode channel < length ns) (channels a)\<rparr>) ns time
   \<and> Animation_update a ns time =
       foldl (\<lambda>ns' channel. ns'[targetNode channel :=
                 apply_channel channel (ns' ! targetNode channel) (js_rem time (duration a))])
         ns (filter (\<lambda>channel. targetNode channel < length ns) (channels a))
   \<and> length (Animation_update a ns time) = length ns"
proof -
  have f: "Animation_update_loop chs ms t =
      foldl (\<lambda>ns' channel. ns'[targetNode channel :=
                apply_channel channel (ns' ! targetNode channel) t])
        ms (filter (\<lambda>channel. targetNode channel < length ms) chs)" for chs ms t
    by (induction chs arbitrary: ms) auto
  have g: "length ms = k \<Longrightarrow>
      Animation_update_loop (filter (\<lambda>channel. targetNode channel < k) chs) ms t
      = Animation_update_loop chs ms t" for chs ms t k
    by (induction chs arbitrary: ms) auto
  have 1: "Animation_update a ns time =
     Animation_update
       (a\<lparr>channels := filter (\<lambda>channel. targetNode channel < length ns) (channels a)\<rparr>) ns time"
    using g [of ns "length ns" "channels a"] by (simp add: Animation_update_def Let_def)
  have 2: "Animation_update a ns time =
       foldl (\<lambda>ns' channel. ns'[targetNode channel :=
                 apply_channel channel (ns' ! targetNode channel) (js_rem time (duration a))])
         ns (filter (\<lambda>channel. targetNode channel < length ns) (channels a))"
    using f [of "channels a" ns] by (simp add: Animation_update_def Let_def)
  have 3: "length (Animation_update a ns time) = length ns"
    by (simp add: Animation_update_def Let_def length_Animation_update_loop)
  show ?thesis using 1 2 3 by blast
qed

lemma js_rem_ex: "js_rem (5 / 2) 2 = Num (1 / 2)"
  by (simp add: js_rem_def)

theorem Animation_update_skips_missing_witness:
  "Animation_update c8_animation [c2_node] (5 / 2) = [c2_node\<lparr>translation := [1 / 2, 0, 0]\<rparr>]"
proof -
  have "Animation_update c8_animation [c2_node] (5 / 2) =
     Animation_update
       (c8_animation\<lparr>channels := filter (\<lambda>channel. targetNode channel < length [c2_node])
          (channels c8_animation)\<rparr>) [c2_node] (5 / 2)"
    using Animation_update_skips_missing [of c8_animation "[c2_node]" "5 / 2"] by blast
  also have "\<dots> = Animation_update \<lparr>channels = [c2_channel], duration = 2\<rparr> [c2_node] (5 / 2)"
    by (simp add: c8_animation_def c2_channel_def)
  also have "\<dots> = [apply_channel c2_channel c2_node (Num (1 / 2))]"
    by (simp add: Animation_update_def js_rem_ex) (simp add: c2_channel_def)
  also have "\<dots> = [c2_node\<lparr>translation := [1 / 2, 0, 0]\<rparr>]"
    by (simp add: apply_channel_def findKeyframes_def c2_channel_def Let_def
        findKeyframes_loop.simps [of _ _ 0] applyTranslation_def subarray_def vec3_lerp_def
        js_div_def js_sub_def)
  finally show ?thesis .
qed

section \<open>The uniform record of a draw\<close>

lemma length16E:
  assumes "length (a :: 'a list) = 16"
  obtains x0 x1 x2 x3 x4 x5 x6 x7 x8 x9 x10 x11 x12 x13 x14 x15
  where "a = [x0, x1, x2, x3, x4, x5, x6, x7, x8, x9, x10, x11, x12, x13, x14, x15]"
proof -
  from assms have "length a = Suc (Suc (Suc (Suc (Suc (Suc (Suc (Suc
      (Suc (Suc (Suc (Suc (Suc (Suc (Suc (Suc 0)))))))))))))))" by simp
  then show ?thesis using that by (auto simp: length_Suc_conv)
qed

lemma Uniforms_offsets:
  "member_offsets 0 Uniforms =
     [(''modelMatrix'', 0), (''viewMatrix'', 64), (''projectionMatrix'', 128),
      (''normalMatrix'', 192), (''lightDir'', 256), (''baseColor'', 272), (''flags'', 288),
      (''metallicFactor'', 304), (''roughnessFactor'', 308), (''normalScale'', 312),
      (''hasNormalTexture'', 316), (''emissiveFactor'', 320), (''hasEmissiveTexture'', 336),
      (''padding2'', 352)]"
  by (simp add: Uniforms_def roundUp_def Let_def)

lemma Uniforms_size: "struct_size Uniforms = 368"
  by (simp add: struct_size_def Uniforms_def roundUp_def)

lemma uniformData_closed:
  assumes "length modelMatrix = 16" and "length (viewMatrix R) = 16"
    and "length (projectionMatrix R) = 16" and "length (normalMatrix R) = 16"
    and "length (baseColor p) = 4" and "length (emissiveFactor p) = 4"
  shows "uniformData R p modelMatrix sk =
    Inr (map F32 modelMatrix @ map F32 (viewMatrix R) @ map F32 (projectionMatrix R)
         @ map F32 (normalMatrix R) @ map F32 DEFAULT_LIGHT_DIR @ map F32 (baseColor p)
         @ [flag (hasSkinning p \<and> sk \<noteq> None), flag (hasTexture p), flag (hasNormals p),
            flag (hasMetallicRoughnessTexture p),
            F32 (metallicFactor p), F32 (roughnessFactor p), F32 (normalScale p),
            flag (hasNormalTexture p)]
         @ map F32 (emissiveFactor p) @ [flag (hasEmissiveTexture p)] @ replicate 7 (U32 0))"
proof -
  from assms(1) obtain m0 m1 m2 m3 m4 m5 m6 m7 m8 m9 m10 m11 m12 m13 m14 m15
    where M: "modelMatrix = [m0, m1, m2, m3, m4, m5, m6, m7, m8, m9, m10, m11, m12, m13, m14, m15]"
    by (rule length16E)
  from assms(2) obtain v0 v1 v2 v3 v4 v5 v6 v7 v8 v9 v10 v11 v12 v13 v14 v15
    where V: "viewMatrix R = [v0, v1, v2, v3, v4, v5, v6, v7, v8, v9, v10, v11, v12, v13, v14, v15]"
    by (rule length16E)
  from assms(3) obtain p0 p1 p2 p3 p4 p5 p6 p7 p8 p9 p10 p11 p12 p13 p14 p15
    where P: "projectionMatrix R = [p0, p1, p2, p3, p4, p5, p6, p7, p8, p9, p10, p11, p12, p13, p14, p15]"
    by (rule length16E)
  from assms(4) obtain n0 n1 n2 n3 n4 n5 n6 n7 n8 n9 n10 n11 n12 n13 n14 n15
    where N: "normalMatrix R = [n0, n1, n2, n3, n4, n5, n6, n7, n8, n9, n10, n11, n12, n13, n14, n15]"
    by (rule length16E)
  from assms(5) obtain b0 b1 b2 b3 where B: "baseColor p = [b0, b1, b2, b3]"
    by (rule length4E)
  from assms(6) obtain e0 e1 e2 e3 where E: "emissiveFactor p = [e0, e1, e2, e3]"
    by (rule length4E)
  show ?thesis
    by (simp add: uniformData_def M V P N B E bindE_def floatView_set_def typed_set_def
        ArrayBuffer_new_def DEFAULT_LIGHT_DIR_def float_at_def)
      (simp add: numeral_eq_Suc)
qed


text \<open>
  C7. For every primitive drawn with 4x4 matrices, a 4-component base colour and a
  4-component emissive factor, the uniform data is packed in 368 bytes, the size of the
  shader's structure, with each field at the byte offset of the member of the shader's
  structure: the model matrix at byte 0, the view matrix at 64, the projection matrix at
  128, the normal matrix at 192, the light direction at 256, the base colour at 272, the
  four flags (skinning, texture, normals, metallic-roughness texture) at 288, the metallic
  factor at 304, the roughness factor at 308, the normal scale at 312, the normal texture
  flag at 316, the emissive factor at 320 and the emissive texture flag at 336; the bytes
  from 340 on stay zero.
\<close>

theorem uniformData_layout:
  assumes "length modelMatrix = 16" and "length (viewMatrix R) = 16"
    and "length (projectionMatrix R) = 16" and "length (normalMatrix R) = 16"
    and "length (baseColor p) = 4" and "length (emissiveFactor p) = 4"
  shows "\<exists>u. uniformData R p modelMatrix sk = Inr u
     \<and> 4 * length u = 368 \<and> struct_size Uniforms = 368
     \<and> offset_of ''modelMatrix'' = 0 \<and> cells_at u 0 16 = map F32 modelMatrix
     \<and> offset_of ''viewMatrix'' = 64 \<and> cells_at u 64 16 = map F32 (viewMatrix R)
     \<and> offset_of ''projectionMatrix'' = 128
     \<and> cells_at u 128 16 = map F32 (projectionMatrix R)
     \<and> offset_of ''normalMatrix'' = 192 \<and> cells_at u 192 16 = map F32 (normalMatrix R)
     \<and> offset_of ''lightDir'' = 256 \<and> cells_at u 256 4 = map F32 DEFAULT_LIGHT_DIR
     \<and> offset_of ''baseColor'' = 272 \<and> cells_at u 272 4 = map F32 (baseColor p)
     \<and> offset_of ''flags'' = 288
     \<and> cells_at u 288 4 =
          [flag (hasSkinning p \<and> sk \<noteq> None), flag (hasTexture p), flag (hasNormals p),
           flag (hasMetallicRoughnessTexture p)]
     \<and> offset_of ''metallicFactor'' = 304 \<and> cells_at u 304 1 = [F32 (metallicFactor p)]
     \<and> offset_of ''roughnessFactor'' = 308 \<and> cells_at u 308 1 = [F32 (roughnessFactor p)]
     \<and> offset_of ''normalScale'' = 312 \<and> cells_at u 312 1 = [F32 (normalScale p)]
     \<and> offset_of ''hasNormalTexture'' = 316 \<and> cells_at u 316 1 = [flag (hasNormalTexture p)]
     \<and> offset_of ''emissiveFactor'' = 320 \<and> cells_at u 320 4 = map F32 (emissiveFactor p)
     \<and> offset_of ''hasEmissiveTexture'' = 336
     \<and> cells_at u 336 1 = [flag (hasEmissiveTexture p)]
     \<and> offset_of ''padding2'' = 352 \<and> cells_at u 340 7 = replicate 7 (U32 0)"
proof -
  let ?u = "map F32 modelMatrix @ map F32 (viewMatrix R) @ map F32 (projectionMatrix R)
         @ map F32 (normalMatrix R) @ map F32 DEFAULT_LIGHT_DIR @ map F32 (baseColor p)
         @ [flag (hasSkinning p \<and> sk \<noteq> None), flag (hasTexture p), flag (hasNormals p),
            flag (hasMetallicRoughnessTexture p),
            F32 (metallicFactor p), F32 (roughnessFactor p), F32 (normalScale p),
            flag (hasNormalTexture p)]
         @ map F32 (emissiveFactor p) @ [flag (hasEmissiveTexture p)] @ replicate 7 (U32 0)"
  have u: "uniformData R p modelMatrix sk = Inr ?u"
    using assms by (rule uniformData_closed)
  have l: "4 * length ?u = 368"
    using assms by (simp add: DEFAULT_LIGHT_DIR_def)
  have ld: "length DEFAULT_LIGHT_DIR = 4" by (simp add: DEFAULT_LIGHT_DIR_def)
  have offs: "offset_of ''modelMatrix'' = 0" "offset_of ''viewMatrix'' = 64"
    "offset_of ''projectionMatrix'' = 128" "offset_of ''normalMatrix'' = 192"
    "offset_of ''lightDir'' = 256" "offset_of ''baseColor'' = 272" "offset_of ''flags'' = 288"
    "offset_of ''metallicFactor'' = 304" "offset_of ''roughnessFactor'' = 308"
    "offset_of ''normalScale'' = 312" "offset_of ''hasNormalTexture'' = 316"
    "offset_of ''emissiveFactor'' = 320" "offset_of ''hasEmissiveTexture'' = 336"
    "offset_of ''padding2'' = 352"
    by (simp_all add: offset_of_def Uniforms_offsets)
  have c: "cells_at ?u 0 16 = map F32 modelMatrix"
    "cells_at ?u 64 16 = map F32 (viewMatrix R)"
    "cells_at ?u 128 16 = map F32 (projectionMatrix R)"
    "cells_at ?u 192 16 = map F32 (normalMatrix R)"
    "cells_at ?u 256 4 = map F32 DEFAULT_LIGHT_DIR"
    "cells_at ?u 272 4 = map F32 (baseColor p)"
    "cells_at ?u 288 4 =
          [flag (hasSkinning p \<and> sk \<noteq> None), flag (hasTexture p), flag (hasNormals p),
           flag (hasMetallicRoughnessTexture p)]"
    "cells_at ?u 304 1 = [F32 (metallicFactor p)]"
    "cells_at ?u 308 1 = [F32 (roughnessFactor p)]"
    "cells_at ?u 312 1 = [F32 (normalScale p)]"
    "cells_at ?u 316 1 = [flag (hasNormalTexture p)]"
    "cells_at ?u 320 4 = map F32 (emissiveFactor p)"
    "cells_at ?u 336 1 = [flag (hasEmissiveTexture p)]"
    "cells_at ?u 340 7 = replicate 7 (U32 0)"
    using assms ld by (simp_all add: cells_at_def subarray_def)
  show ?thesis
    using u l Uniforms_size offs c by (intro exI [of _ ?u]) (simp only: simp_thms)
qed

theorem uniformData_layout_witness:
  "\<exists>u. uniformData c7_renderer c7_primitive (mat4_fromTranslation [1, 2, 3]) None = Inr u
     \<and> cells_at u 0 16 = map F32 (mat4_fromTranslation [1, 2, 3])
     \<and> cells_at u 64 16 = map F32 (mat4_fromTranslation [0, 0, - 5])
     \<and> cells_at u 272 4 = [F32 1, F32 (1 / 2), F32 0, F32 1]
     \<and> cells_at u 288 4 = [U32 0, U32 1, U32 1, U32 0]
     \<and> cells_at u 304 1 = [F32 (1 / 4)] \<and> cells_at u 308 1 = [F32 (3 / 4)]
     \<and> cells_at u 312 1 = [F32 2] \<and> cells_at u 316 1 = [U32 1]
     \<and> cells_at u 320 4 = [F32 0, F32 0, F32 0, F32 1] \<and> cells_at u 336 1 = [U32 0]"
proof -
  have h: "length (mat4_fromTranslation [1, 2, 3]) = 16"
    "length (viewMatrix c7_renderer) = 16" "length (projectionMatrix c7_renderer) = 16"
    "length (normalMatrix c7_renderer) = 16" "length (baseColor c7_primitive) = 4"
    "length (emissiveFactor c7_primitive) = 4"
    by (simp_all add: c7_renderer_def c7_primitive_def mat4_fromTranslation_def mat4_create_def)
  from uniformData_layout [OF h, of None]
  obtain u where u: "uniformData c7_renderer c7_primitive (mat4_fromTranslation [1, 2, 3]) None = Inr u"
    and c: "cells_at u 0 16 = map F32 (mat4_fromTranslation [1, 2, 3])"
      "cells_at u 64 16 = map F32 (viewMatrix c7_renderer)"
      "cells_at u 272 4 = map F32 (baseColor c7_primitive)"
      "cells_at u 288 4 =
          [flag (hasSkinning c7_primitive \<and> (None :: skin option) \<noteq> None),
           flag (hasTexture c7_primitive), flag (hasNormals c7_primitive),
           flag (hasMetallicRoughnessTexture c7_primitive)]"
      "cells_at u 304 1 = [F32 (metallicFactor c7_primitive)]"
      "cells_at u 308 1 = [F32 (roughnessFactor c7_primitive)]"
      "cells_at u 312 1 = [F32 (normalScale c7_primitive)]"
      "cells_at u 316 1 = [flag (hasNormalTexture c7_primitive)]"
      "cells_at u 320 4 = map F32 (emissiveFactor c7_primitive)"
      "cells_at u 336 1 = [flag (hasEmissiveTexture c7_primitive)]"
    by blast
  show ?thesis
    using u c by (simp add: c7_renderer_def c7_primitive_def flag_def)
qed

section \<open>The draw walk\<close>

lemma drawInstances_calls:
  "drawInstances i M sk insts st = (eo, st') \<Longrightarrow>
     \<exists>new. snd st' = snd st @ new
        \<and> (\<forall>d \<in> set new. dc_node d = i \<and> dc_modelMatrix d = M \<and> dc_instance d \<in> set insts)
        \<and> (eo = None \<longrightarrow> map dc_instance new = insts)"
proof (induction insts arbitrary: st)
  case Nil
  then show ?case by auto
next
  case (Cons inst rest)
  show ?case
  proof (cases "drawPrimitive (fst st) inst M sk")
    case (Inl e)
    with Cons.prems show ?thesis by auto
  next
    case (Inr r)
    obtain u jd where r: "r = (u, jd)" by (cases r)
    let ?d = "\<lparr>dc_node = i, dc_instance = inst, dc_modelMatrix = M,
               dc_skin = sk, dc_uniforms = u, dc_jointData = jd\<rparr>"
    have "drawInstances i M sk rest (fst st, snd st @ [?d]) = (eo, st')"
      using Cons.prems Inr r by simp
    from Cons.IH [OF this]
    obtain new where new: "snd st' = (snd st @ [?d]) @ new"
      "\<forall>d \<in> set new. dc_node d = i \<and> dc_modelMatrix d = M \<and> dc_instance d \<in> set rest"
      "eo = None \<longrightarrow> map dc_instance new = rest"
      by auto
    show ?thesis
      using new by (intro exI [of _ "?d # new"]) auto
  qed
qed

lemma drawNodeMesh_calls:
  assumes "drawNodeMesh m i n st = (eo, st')"
  shows "\<exists>new. snd st' = snd st @ new
     \<and> (\<forall>d \<in> set new. dc_node d = i \<and> dc_modelMatrix d = effectiveModelMatrix m n
           \<and> (\<exists>mi insts. meshIndex n = Some mi \<and> mi < length (meshes m)
                 \<and> primitiveInstances n = Some insts \<and> dc_instance d \<in> set insts))"
proof (cases "meshIndex n")
  case None
  with assms show ?thesis by (auto simp: drawNodeMesh_def)
next
  case (Some mi)
  show ?thesis
  proof (cases "primitiveInstances n")
    case None
    with assms Some show ?thesis by (auto simp: drawNodeMesh_def)
  next
    case insts: (Some insts)
    show ?thesis
    proof (cases "mi < length (meshes m)")
      case False
      with assms Some insts show ?thesis by (auto simp: drawNodeMesh_def Let_def)
    next
      case True
      from assms Some insts True obtain sk R where
        "drawInstances i (effectiveModelMatrix m n) sk insts (R, snd st) = (eo, st')"
        by (auto simp: drawNodeMesh_def Let_def effectiveModelMatrix_def)
      from drawInstances_calls [OF this] Some insts True show ?thesis by auto
    qed
  qed
qed

lemma drawNode_drawEach_calls:
  "(drawNode fuel m i st = Some (eo, st') \<longrightarrow>
      (\<forall>d \<in> set (snd st). call_by_design m d) \<longrightarrow> (\<forall>d \<in> set (snd st'). call_by_design m d))
   \<and> (drawEach fuel m is st = Some (eo, st') \<longrightarrow>
      (\<forall>d \<in> set (snd st). call_by_design m d) \<longrightarrow> (\<forall>d \<in> set (snd st'). call_by_design m d))"
proof (induction fuel arbitrary: i "is" st eo st')
  case 0
  have "drawEach 0 m js st = Some (eo, st') \<longrightarrow>
      (\<forall>d \<in> set (snd st). call_by_design m d) \<longrightarrow> (\<forall>d \<in> set (snd st'). call_by_design m d)"
    for js st eo st'
    by (induction js arbitrary: st) auto
  then show ?case by simp
next
  case (Suc fuel)
  have node: "(\<forall>d \<in> set (snd st'). call_by_design m d)"
    if "drawNode (Suc fuel) m i st = Some (eo, st')" "\<forall>d \<in> set (snd st). call_by_design m d"
    for i st eo st'
  proof (cases "i < length (nodes (nodeHierarchy m))")
    case False
    with that show ?thesis by auto
  next
    case True
    obtain e1 st1 where m1: "drawNodeMesh m i (nodes (nodeHierarchy m) ! i) st = (e1, st1)"
      by (cases "drawNodeMesh m i (nodes (nodeHierarchy m) ! i) st")
    from drawNodeMesh_calls [OF m1] that(2) True
    have ok1: "\<forall>d \<in> set (snd st1). call_by_design m d"
      by (auto simp: call_by_design_def)
    show ?thesis
    proof (cases e1)
      case (Some e)
      with that(1) True m1 ok1 show ?thesis by auto
    next
      case None
      with that(1) True m1
      have "drawEach fuel m (children (nodes (nodeHierarchy m) ! i)) st1 = Some (eo, st')"
        by simp
      with Suc.IH ok1 show ?thesis by blast
    qed
  qed
  have each: "drawEach (Suc fuel) m js st = Some (eo, st') \<longrightarrow>
      (\<forall>d \<in> set (snd st). call_by_design m d) \<longrightarrow> (\<forall>d \<in> set (snd st'). call_by_design m d)"
    for js st eo st'
  proof (induction js arbitrary: st)
    case Nil
    then show ?case by auto
  next
    case (Cons j js)
    show ?case
    proof (intro impI)
      assume a: "drawEach (Suc fuel) m (j # js) st = Some (eo, st')"
        and b: "\<forall>d \<in> set (snd st). call_by_design m d"
      then obtain e1 st1 where n1: "drawNode (Suc fuel) m j st = Some (e1, st1)"
        by (cases "drawNode (Suc fuel) m j st") (auto simp del: drawNode.simps)
      from node [OF n1 b] have ok1: "\<forall>d \<in> set (snd st1). call_by_design m d" .
      show "\<forall>d \<in> set (snd st'). call_by_design m d"
      proof (cases e1)
        case (Some e)
        with a n1 ok1 show ?thesis by (auto simp del: drawNode.simps)
      next
        case None
        with a n1 have "drawEach (Suc fuel) m js st1 = Some (eo, st')"
          by (simp del: drawNode.simps)
        with Cons.IH ok1 show ?thesis by blast
      qed
    qed
  qed
  show ?case using node each by blast
qed

text \<open>
  C3 (as the code has it). Every call of \<^verbatim>\<open>_drawPrimitive\<close> that the draw walk makes,
  whether the walk ends or throws, is for a primitive instance of a node that carries a mesh,
  and all instances of one node get the same model matrix: the identity matrix when any
  primitive of the node's mesh uses skinning, whatever the node's world matrix, and the
  node's world matrix unmodified when no primitive of the mesh uses skinning. So an
  unskinned primitive is drawn with the node's world matrix only when it has no skinned
  sibling in the mesh.
\<close>

theorem drawModel_effective_model_matrix:
  assumes "drawModel fuel R m = Some (eo, st)"
  shows "\<forall>d \<in> set (snd st).
           dc_node d < length (nodes (nodeHierarchy m))
           \<and> (\<exists>mi insts. meshIndex (nodes (nodeHierarchy m) ! dc_node d) = Some mi
                 \<and> mi < length (meshes m)
                 \<and> primitiveInstances (nodes (nodeHierarchy m) ! dc_node d) = Some insts
                 \<and> dc_instance d \<in> set insts
                 \<and> dc_modelMatrix d =
                     (if list_ex hasSkinning (primitives (meshes m ! mi)) then mat4_create
                      else worldMatrix (nodes (nodeHierarchy m) ! dc_node d)))"
proof -
  have "\<forall>d \<in> set (snd st). call_by_design m d"
    using drawNode_drawEach_calls [of fuel m _ "(R, [])" eo st "rootNodes (nodeHierarchy m)"] assms
    by (simp add: drawModel_def)
  then have all: "\<And>d. d \<in> set (snd st) \<Longrightarrow> call_by_design m d" by blast
  show ?thesis
  proof
    fix d assume "d \<in> set (snd st)"
    from all [OF this] obtain mi insts where
      d: "dc_node d < length (nodes (nodeHierarchy m))"
      "dc_modelMatrix d = effectiveModelMatrix m (nodes (nodeHierarchy m) ! dc_node d)"
      "meshIndex (nodes (nodeHierarchy m) ! dc_node d) = Some mi" "mi < length (meshes m)"
      "primitiveInstances (nodes (nodeHierarchy m) ! dc_node d) = Some insts"
      "dc_instance d \<in> set insts"
      by (auto simp: call_by_design_def)
    have "dc_modelMatrix d =
        (if list_ex hasSkinning (primitives (meshes m ! mi)) then mat4_create
         else worldMatrix (nodes (nodeHierarchy m) ! dc_node d))"
      using d(2,3) by (simp add: effectiveModelMatrix_def)
    with d show "dc_node d < length (nodes (nodeHierarchy m))
           \<and> (\<exists>mi insts. meshIndex (nodes (nodeHierarchy m) ! dc_node d) = Some mi
                 \<and> mi < length (meshes m)
                 \<and> primitiveInstances (nodes (nodeHierarchy m) ! dc_node d) = Some insts
                 \<and> dc_instance d \<in> set insts
                 \<and> dc_modelMatrix d =
                     (if list_ex hasSkinning (primitives (meshes m ! mi)) then mat4_create
                      else worldMatrix (nodes (nodeHierarchy m) ! dc_node d)))"
      by blast
  qed
qed


lemma length_mat4_transpose: "length (mat4_transpose a) = 16"
  by (simp add: mat4_transpose_def)

lemma c3_drawModel_calls:
  "map_option
     (\<lambda>r. (fst r, map (\<lambda>d. (dc_node d, hasSkinning (primitive (dc_instance d)), dc_modelMatrix d))
                    (snd (snd r))))
     (drawModel 2 c7_renderer c3_model)
   = Some (None, [(0, True, mat4_create), (0, False, mat4_create),
                  (1, False, mat4_fromTranslation [1, 0, 5])])"
proof -
  have l: "length mat4_create = 16" "length (mat4_fromTranslation v) = 16" for v
    by (simp_all add: mat4_create_def mat4_fromTranslation_def)
  have p: "length (baseColor c7_primitive) = 4" "length (emissiveFactor c7_primitive) = 4"
    "length (baseColor c3_skinned) = 4" "length (emissiveFactor c3_skinned) = 4"
    "hasSkinning c3_skinned" "\<not> hasSkinning c7_primitive"
    by (simp_all add: c7_primitive_def c3_skinned_def)
  have r: "length (viewMatrix c7_renderer) = 16" "length (projectionMatrix c7_renderer) = 16"
    by (simp_all add: c7_renderer_def l)
  show ?thesis
    by (simp add: drawModel_def c3_model_def numeral_2_eq_2 drawNodeMesh_def Let_def
        drawPrimitive_def bindE_def uniformData_closed l p r length_mat4_transpose)
qed

theorem drawModel_effective_model_matrix_witness:
  "\<exists>eo st. drawModel 2 c7_renderer c3_model = Some (eo, st)
     \<and> map dc_node (snd st) = [0, 0, 1]
     \<and> list_all (\<lambda>d. dc_modelMatrix d =
           effectiveModelMatrix c3_model (nodes (nodeHierarchy c3_model) ! dc_node d)) (snd st)"
proof -
  from c3_drawModel_calls obtain eo st where
    ev: "drawModel 2 c7_renderer c3_model = Some (eo, st)"
    and n: "map (\<lambda>d. (dc_node d, hasSkinning (primitive (dc_instance d)), dc_modelMatrix d)) (snd st)
       = [(0, True, mat4_create), (0, False, mat4_create),
          (1, False, mat4_fromTranslation [1, 0, 5])]"
    by (cases "drawModel 2 c7_renderer c3_model") auto
  have "map dc_node (snd st) =
      map fst (map (\<lambda>d. (dc_node d, hasSkinning (primitive (dc_instance d)), dc_modelMatrix d)) (snd st))"
    by simp
  then have a: "map dc_node (snd st) = [0, 0, 1]" unfolding n by simp
  have "dc_modelMatrix d =
      effectiveModelMatrix c3_model (nodes (nodeHierarchy c3_model) ! dc_node d)"
    if "d \<in> set (snd st)" for d
    using drawModel_effective_model_matrix [OF ev] that
    by (auto simp: effectiveModelMatrix_def)
  then have b: "list_all (\<lambda>d. dc_modelMatrix d =
           effectiveModelMatrix c3_model (nodes (nodeHierarchy c3_model) ! dc_node d)) (snd st)"
    by (simp add: list_all_iff)
  show ?thesis by (intro exI [of _ eo] exI [of _ st] conjI ev a b)
qed

text \<open>
  The claim as the specification words it fails: in the model above the root's mesh has a
  skinned primitive, and its unskinned sibling is drawn with the identity matrix, not with
  the root's world matrix, a translation by (0, 0, 5).
\<close>

theorem drawModel_unskinned_sibling_counterexample:
  "map_option (map dc_node \<circ> snd \<circ> snd) (drawModel 2 c7_renderer c3_model) = Some [0, 0, 1]
   \<and> map_option (map (hasSkinning \<circ> primitive \<circ> dc_instance) \<circ> snd \<circ> snd)
         (drawModel 2 c7_renderer c3_model) = Some [True, False, False]
   \<and> map_option (map dc_modelMatrix \<circ> snd \<circ> snd) (drawModel 2 c7_renderer c3_model)
       = Some [mat4_create, mat4_create, mat4_fromTranslation [1, 0, 5]]
   \<and> worldMatrix (nodes (nodeHierarchy c3_model) ! 0) = mat4_fromTranslation [0, 0, 5]
   \<and> mat4_fromTranslation [0, 0, 5] \<noteq> mat4_create"
proof -
  from c3_drawModel_calls obtain eo st where
    ev: "drawModel 2 c7_renderer c3_model = Some (eo, st)"
    and n: "map (\<lambda>d. (dc_node d, hasSkinning (primitive (dc_instance d)), dc_modelMatrix d)) (snd st)
       = [(0, True, mat4_create), (0, False, mat4_create),
          (1, False, mat4_fromTranslation [1, 0, 5])]"
    by (cases "drawModel 2 c7_renderer c3_model") auto
  have "map dc_node (snd st) =
      map fst (map (\<lambda>d. (dc_node d, hasSkinning (primitive (dc_instance d)), dc_modelMatrix d)) (snd st))"
    by simp
  then have a: "map dc_node (snd st) = [0, 0, 1]" unfolding n by simp
  have "map (hasSkinning \<circ> primitive \<circ> dc_instance) (snd st) =
      map (fst \<circ> snd)
        (map (\<lambda>d. (dc_node d, hasSkinning (primitive (dc_instance d)), dc_modelMatrix d)) (snd st))"
    by simp
  then have b: "map (hasSkinning \<circ> primitive \<circ> dc_instance) (snd st) = [True, False, False]"
    unfolding n by simp
  have "map dc_modelMatrix (snd st) =
      map (snd \<circ> snd)
        (map (\<lambda>d. (dc_node d, hasSkinning (primitive (dc_instance d)), dc_modelMatrix d)) (snd st))"
    by simp
  then have c: "map dc_modelMatrix (snd st)
      = [mat4_create, mat4_create, mat4_fromTranslation [1, 0, 5]]"
    unfolding n by simp
  have d: "worldMatrix (nodes (nodeHierarchy c3_model) ! 0) = mat4_fromTranslation [0, 0, 5]"
    by (simp add: c3_model_def)
  have e: "mat4_fromTranslation [0, 0, 5] \<noteq> mat4_create"
    by (simp add: mat4_fromTranslation_def mat4_create_def)
  show ?thesis using ev a b c d e by simp
qed

section \<open>World matrices\<close>

lemma strip_eqD:
  assumes "strip a = strip b"
  shows "children a = children b" and "localMatrix a = localMatrix b"
proof -
  have "children (strip a) = children (strip b)" "translation (strip a) = translation (strip b)"
    "rotation (strip a) = rotation (strip b)" "scale (strip a) = scale (strip b)"
    using assms by simp_all
  then show "children a = children b" and "localMatrix a = localMatrix b"
    by (simp_all add: strip_def localMatrix_def)
qed

lemma same_tree_length: "map strip ns' = map strip ns \<Longrightarrow> length ns' = length ns"
  by (rule map_eq_imp_length_eq)

lemma same_tree_nth:
  assumes "map strip ns' = map strip ns" and "k < length ns"
  shows "children (ns' ! k) = children (ns ! k)" and "localMatrix (ns' ! k) = localMatrix (ns ! k)"
proof -
  have l: "length ns' = length ns" using assms(1) by (rule same_tree_length)
  have "map strip ns' ! k = map strip ns ! k" using assms(1) by simp
  then have "strip (ns' ! k) = strip (ns ! k)" using assms(2) l by simp
  then show "children (ns' ! k) = children (ns ! k)"
    and "localMatrix (ns' ! k) = localMatrix (ns ! k)"
    by (rule strip_eqD)+
qed

lemma traverse_same_tree:
  assumes "map strip ns' = map strip ns"
  shows "traverseRecursive fuel ns' i = traverseRecursive fuel ns i
       \<and> traverseEach fuel ns' js = traverseEach fuel ns js"
proof (induction fuel arbitrary: i js)
  case 0
  have "traverseEach 0 ns' js = traverseEach 0 ns js" for js
    by (induction js) auto
  then show ?case by simp
next
  case (Suc fuel)
  have l: "length ns' = length ns" using assms by (rule same_tree_length)
  have r: "traverseRecursive (Suc fuel) ns' i = traverseRecursive (Suc fuel) ns i" for i
    using Suc.IH l same_tree_nth(1) [OF assms, of i] by simp
  have "traverseEach (Suc fuel) ns' js = traverseEach (Suc fuel) ns js" for js
  proof (induction js)
    case Nil
    show ?case by simp
  next
    case (Cons j js)
    then show ?case using r [of j]
      by (simp del: traverseRecursive.simps split: option.splits sum.splits)
  qed
  with r show ?case by blast
qed

lemma traverse_visited:
  "(traverseRecursive fuel ns i = Some (Inr xs) \<longrightarrow>
      i \<in> set xs \<and> (\<forall>k \<in> set xs. k < length ns)
      \<and> (\<forall>p \<in> set xs. set (children (ns ! p)) \<subseteq> set xs))
   \<and> (traverseEach fuel ns js = Some (Inr xs) \<longrightarrow>
      set js \<subseteq> set xs \<and> (\<forall>k \<in> set xs. k < length ns)
      \<and> (\<forall>p \<in> set xs. set (children (ns ! p)) \<subseteq> set xs))"
proof (induction fuel arbitrary: i js xs)
  case 0
  have "traverseEach 0 ns js = Some (Inr xs) \<longrightarrow> js = [] \<and> xs = []"
    by (cases js) auto
  then show ?case by auto
next
  case (Suc fuel)
  have r: "i \<in> set xs \<and> (\<forall>k \<in> set xs. k < length ns)
      \<and> (\<forall>p \<in> set xs. set (children (ns ! p)) \<subseteq> set xs)"
    if "traverseRecursive (Suc fuel) ns i = Some (Inr xs)" for i xs
  proof -
    from that have i: "i < length ns" by (auto split: if_splits)
    with that obtain ys where ys: "traverseEach fuel ns (children (ns ! i)) = Some (Inr ys)"
      and xs: "xs = i # ys"
      by (auto split: option.splits sum.splits)
    from Suc.IH ys have "set (children (ns ! i)) \<subseteq> set ys" "\<forall>k \<in> set ys. k < length ns"
      "\<forall>p \<in> set ys. set (children (ns ! p)) \<subseteq> set ys"
      by blast+
    then show ?thesis using i xs by auto
  qed
  have e: "traverseEach (Suc fuel) ns js = Some (Inr xs) \<longrightarrow>
      set js \<subseteq> set xs \<and> (\<forall>k \<in> set xs. k < length ns)
      \<and> (\<forall>p \<in> set xs. set (children (ns ! p)) \<subseteq> set xs)" for js xs
  proof (induction js arbitrary: xs)
    case Nil
    show ?case by auto
  next
    case (Cons j js)
    show ?case
    proof
      assume a: "traverseEach (Suc fuel) ns (j # js) = Some (Inr xs)"
      then obtain ys zs where ys: "traverseRecursive (Suc fuel) ns j = Some (Inr ys)"
        and zs: "traverseEach (Suc fuel) ns js = Some (Inr zs)" and xs: "xs = ys @ zs"
        by (auto simp del: traverseRecursive.simps split: option.splits sum.splits)
      from r [OF ys] Cons.IH [of zs] zs xs
      show "set (j # js) \<subseteq> set xs \<and> (\<forall>k \<in> set xs. k < length ns)
        \<and> (\<forall>p \<in> set xs. set (children (ns ! p)) \<subseteq> set xs)"
        by auto
    qed
  qed
  show ?case using r e by blast
qed


lemma deref_unchanged:
  assumes "par_ok par xs ns" and "\<forall>k < length ns. k \<notin> set xs \<longrightarrow> ns' ! k = ns ! k"
  shows "deref base ns' par = deref base ns par"
  using assms by (cases par) (auto simp: par_ok_def deref_def)

lemma updateEach_step:
  assumes R: "\<And>i par ns xs. traverseRecursive f ns i = Some (Inr xs) \<Longrightarrow> distinct xs \<Longrightarrow>
      par_ok par xs ns \<Longrightarrow>
      \<exists>ns'. updateRecursive f base True i par ns = Some (Inr ns') \<and> updated ns ns' xs
         \<and> worldMatrix (ns' ! i) = mat4_multiply (deref base ns par) (localMatrix (ns ! i))"
  shows "traverseEach f ns js = Some (Inr xs) \<Longrightarrow> distinct xs \<Longrightarrow> par_ok par xs ns \<Longrightarrow>
      \<exists>ns'. updateEach f base True js par ns = Some (Inr ns') \<and> updated ns ns' xs
         \<and> (\<forall>j \<in> set js.
               worldMatrix (ns' ! j) = mat4_multiply (deref base ns par) (localMatrix (ns ! j)))"
proof (induction js arbitrary: ns xs)
  case Nil
  then show ?case by (auto simp: updated_def)
next
  case (Cons i rest)
  from Cons.prems(1) obtain xs1 xs2 where
    t1: "traverseRecursive f ns i = Some (Inr xs1)"
    and t2: "traverseEach f ns rest = Some (Inr xs2)" and xs: "xs = xs1 @ xs2"
    by (auto split: option.splits sum.splits)
  from Cons.prems(2) xs have d1: "distinct xs1" and d2: "distinct xs2"
    and dj: "set xs1 \<inter> set xs2 = {}" by auto
  have p1: "par_ok par xs1 ns" and p2: "par_ok par xs2 ns"
    using Cons.prems(3) xs by (cases par; simp add: par_ok_def)+
  from R [OF t1 d1 p1] obtain ns1 where
    u1: "updateRecursive f base True i par ns = Some (Inr ns1)" and g1: "updated ns ns1 xs1"
    and w1: "worldMatrix (ns1 ! i) = mat4_multiply (deref base ns par) (localMatrix (ns ! i))"
    by blast
  have s1: "map strip ns1 = map strip ns" using g1 by (simp add: updated_def)
  have l1: "length ns1 = length ns" using s1 by (rule same_tree_length)
  have same1: "\<forall>k < length ns. k \<notin> set xs1 \<longrightarrow> ns1 ! k = ns ! k"
    using g1 by (simp add: updated_def)
  have t2': "traverseEach f ns1 rest = Some (Inr xs2)"
    using traverse_same_tree [OF s1, of f i rest] t2 by simp
  have p2': "par_ok par xs2 ns1"
    using p2 l1 by (cases par; simp add: par_ok_def)
  from Cons.IH [OF t2' d2 p2'] obtain ns2 where
    u2: "updateEach f base True rest par ns1 = Some (Inr ns2)" and g2: "updated ns1 ns2 xs2"
    and w2: "\<forall>j \<in> set rest.
        worldMatrix (ns2 ! j) = mat4_multiply (deref base ns1 par) (localMatrix (ns1 ! j))"
    by blast
  have s2: "map strip ns2 = map strip ns1" using g2 by (simp add: updated_def)
  have same2: "\<forall>k < length ns. k \<notin> set xs2 \<longrightarrow> ns2 ! k = ns1 ! k"
    using g2 l1 by (simp add: updated_def)
  have v1: "i \<in> set xs1" "\<forall>k \<in> set xs1. k < length ns"
    "\<forall>p \<in> set xs1. set (children (ns ! p)) \<subseteq> set xs1"
    using traverse_visited [of f ns i xs1] t1 by blast+
  have v2: "set rest \<subseteq> set xs2" "\<forall>k \<in> set xs2. k < length ns"
    "\<forall>p \<in> set xs2. set (children (ns ! p)) \<subseteq> set xs2"
    using traverse_visited [of f ns _ xs2 rest] t2 by blast+
  have dr: "deref base ns1 par = deref base ns par"
    using p1 same1 by (rule deref_unchanged)
  have u: "updateEach f base True (i # rest) par ns = Some (Inr ns2)"
    using u1 u2 by simp
  have a: "map strip ns2 = map strip ns" using s1 s2 by simp
  have b: "\<forall>k < length ns. k \<notin> set xs \<longrightarrow> ns2 ! k = ns ! k"
    using same1 same2 xs by simp
  have c: "\<forall>k \<in> set xs. matrix (ns2 ! k) = localMatrix (ns ! k)"
  proof
    fix k assume "k \<in> set xs"
    then consider "k \<in> set xs1" | "k \<in> set xs2" using xs by auto
    then show "matrix (ns2 ! k) = localMatrix (ns ! k)"
    proof cases
      case 1
      then have "k \<notin> set xs2" "k < length ns" using dj v1(2) by auto
      then have "ns2 ! k = ns1 ! k" using same2 by simp
      then show ?thesis using g1 1 by (simp add: updated_def)
    next
      case 2
      then have "matrix (ns2 ! k) = localMatrix (ns1 ! k)" using g2 by (simp add: updated_def)
      then show ?thesis using same_tree_nth(2) [OF s1, of k] 2 v2(2) by simp
    qed
  qed
  have d: "\<forall>p \<in> set xs. \<forall>c \<in> set (children (ns ! p)).
      worldMatrix (ns2 ! c) = mat4_multiply (worldMatrix (ns2 ! p)) (localMatrix (ns ! c))"
  proof (intro ballI)
    fix p c assume p: "p \<in> set xs" and c: "c \<in> set (children (ns ! p))"
    from p consider "p \<in> set xs1" | "p \<in> set xs2" using xs by auto
    then show "worldMatrix (ns2 ! c)
        = mat4_multiply (worldMatrix (ns2 ! p)) (localMatrix (ns ! c))"
    proof cases
      case 1
      then have c1: "c \<in> set xs1" using v1(3) c by auto
      have "ns2 ! p = ns1 ! p" "ns2 ! c = ns1 ! c"
        using 1 c1 dj v1(2) same2 by auto
      moreover have "worldMatrix (ns1 ! c)
          = mat4_multiply (worldMatrix (ns1 ! p)) (localMatrix (ns ! c))"
        using g1 1 c by (simp add: updated_def)
      ultimately show ?thesis by simp
    next
      case 2
      then have pl: "p < length ns" using v2(2) by simp
      have c2: "c \<in> set xs2" using v2(3) 2 c by auto
      then have cl: "c < length ns" using v2(2) by simp
      have "c \<in> set (children (ns1 ! p))"
        using same_tree_nth(1) [OF s1 pl] c by simp
      then have "worldMatrix (ns2 ! c)
          = mat4_multiply (worldMatrix (ns2 ! p)) (localMatrix (ns1 ! c))"
        using g2 2 by (simp add: updated_def)
      then show ?thesis using same_tree_nth(2) [OF s1 cl] by simp
    qed
  qed
  have e: "\<forall>j \<in> set (i # rest).
      worldMatrix (ns2 ! j) = mat4_multiply (deref base ns par) (localMatrix (ns ! j))"
  proof
    fix j assume "j \<in> set (i # rest)"
    then consider "j = i" | "j \<in> set rest" by auto
    then show "worldMatrix (ns2 ! j) = mat4_multiply (deref base ns par) (localMatrix (ns ! j))"
    proof cases
      case 1
      have "i \<notin> set xs2" "i < length ns" using v1(1,2) dj by auto
      then have "ns2 ! i = ns1 ! i" using same2 by simp
      then show ?thesis using w1 1 by simp
    next
      case 2
      then have "j < length ns" using v2(1,2) by auto
      then have "localMatrix (ns1 ! j) = localMatrix (ns ! j)"
        by (rule same_tree_nth(2) [OF s1])
      then show ?thesis using w2 2 dr by simp
    qed
  qed
  show ?case using u a b c d e unfolding updated_def by blast
qed

lemma updateRecursive_ok:
  "traverseRecursive f ns i = Some (Inr xs) \<Longrightarrow> distinct xs \<Longrightarrow> par_ok par xs ns \<Longrightarrow>
      \<exists>ns'. updateRecursive f base True i par ns = Some (Inr ns') \<and> updated ns ns' xs
         \<and> worldMatrix (ns' ! i) = mat4_multiply (deref base ns par) (localMatrix (ns ! i))"
proof (induction f arbitrary: i par ns xs)
  case 0
  then show ?case by simp
next
  case (Suc f)
  from Suc.prems(1) have il: "i < length ns" by (auto split: if_splits)
  with Suc.prems(1) obtain ys where
    t: "traverseEach f ns (children (ns ! i)) = Some (Inr ys)" and xs: "xs = i # ys"
    by (auto split: option.splits sum.splits)
  from Suc.prems(2) xs have iy: "i \<notin> set ys" and dy: "distinct ys" by auto
  define n' where "n' = updateWorldMatrix (deref base ns par) (ns ! i)"
  define ns0 where "ns0 = ns[i := n']"
  have n'1: "matrix n' = localMatrix (ns ! i)"
    and n'2: "worldMatrix n' = mat4_multiply (deref base ns par) (localMatrix (ns ! i))"
    and n'3: "children n' = children (ns ! i)" and n'4: "strip n' = strip (ns ! i)"
    by (simp_all add: n'_def updateWorldMatrix_def updateLocalMatrix_def Let_def
        localMatrix_def strip_def)
  have s0: "map strip ns0 = map strip ns"
    using il n'4 by (simp add: ns0_def map_update list_update_same_conv)
  have l0: "length ns0 = length ns" by (simp add: ns0_def)
  have t0: "traverseEach f ns0 (children (ns ! i)) = Some (Inr ys)"
    using traverse_same_tree [OF s0, of f i "children (ns ! i)"] t by simp
  have p0: "par_ok (WorldMatrixOf i) ys ns0"
    using il iy l0 by (simp add: par_ok_def)
  have step: "updateRecursive (Suc f) base True i par ns
      = updateEach f base True (children (ns ! i)) (WorldMatrixOf i) ns0"
    using il n'3 by (simp add: Let_def n'_def ns0_def)
  from updateEach_step [where f = f and base = base, OF Suc.IH t0 dy p0]
  obtain ns' where u: "updateEach f base True (children (ns ! i)) (WorldMatrixOf i) ns0
        = Some (Inr ns')" and g: "updated ns0 ns' ys"
    and w: "\<forall>j \<in> set (children (ns ! i)).
        worldMatrix (ns' ! j)
          = mat4_multiply (deref base ns0 (WorldMatrixOf i)) (localMatrix (ns0 ! j))"
    by blast
  have s': "map strip ns' = map strip ns0" using g by (simp add: updated_def)
  have same: "\<forall>k < length ns. k \<notin> set ys \<longrightarrow> ns' ! k = ns0 ! k"
    using g l0 by (simp add: updated_def)
  have v: "set (children (ns ! i)) \<subseteq> set ys" "\<forall>k \<in> set ys. k < length ns"
    "\<forall>p \<in> set ys. set (children (ns ! p)) \<subseteq> set ys"
    using traverse_visited [of f ns _ ys "children (ns ! i)"] t by blast+
  have i': "ns' ! i = n'" using same il iy by (simp add: ns0_def)
  have a: "map strip ns' = map strip ns" using s' s0 by simp
  have b: "\<forall>k < length ns. k \<notin> set xs \<longrightarrow> ns' ! k = ns ! k"
    using same xs by (simp add: ns0_def)
  have c: "\<forall>k \<in> set xs. matrix (ns' ! k) = localMatrix (ns ! k)"
  proof
    fix k assume "k \<in> set xs"
    then consider "k = i" | "k \<in> set ys" using xs by auto
    then show "matrix (ns' ! k) = localMatrix (ns ! k)"
    proof cases
      case 1
      then show ?thesis using i' n'1 by simp
    next
      case 2
      then have "matrix (ns' ! k) = localMatrix (ns0 ! k)" using g by (simp add: updated_def)
      then show ?thesis using same_tree_nth(2) [OF s0, of k] 2 v(2) by simp
    qed
  qed
  have d: "\<forall>p \<in> set xs. \<forall>c \<in> set (children (ns ! p)).
      worldMatrix (ns' ! c) = mat4_multiply (worldMatrix (ns' ! p)) (localMatrix (ns ! c))"
  proof (intro ballI)
    fix p c assume p: "p \<in> set xs" and c: "c \<in> set (children (ns ! p))"
    from p consider "p = i" | "p \<in> set ys" using xs by auto
    then show "worldMatrix (ns' ! c)
        = mat4_multiply (worldMatrix (ns' ! p)) (localMatrix (ns ! c))"
    proof cases
      case 1
      then have "c \<in> set ys" using v(1) c by auto
      then have cl: "c < length ns" using v(2) by simp
      have "worldMatrix (ns' ! c)
          = mat4_multiply (worldMatrix (ns0 ! i)) (localMatrix (ns0 ! c))"
        using w c 1 by (simp add: deref_def)
      moreover have "ns0 ! i = n'" using il by (simp add: ns0_def)
      moreover have "localMatrix (ns0 ! c) = localMatrix (ns ! c)"
        using cl by (rule same_tree_nth(2) [OF s0])
      ultimately show ?thesis using 1 i' by simp
    next
      case 2
      then have pl: "p < length ns" using v(2) by simp
      have "c \<in> set ys" using v(3) 2 c by auto
      then have cl: "c < length ns" using v(2) by simp
      have "c \<in> set (children (ns0 ! p))"
        using same_tree_nth(1) [OF s0 pl] c by simp
      then have "worldMatrix (ns' ! c)
          = mat4_multiply (worldMatrix (ns' ! p)) (localMatrix (ns0 ! c))"
        using g 2 by (simp add: updated_def)
      then show ?thesis using same_tree_nth(2) [OF s0 cl] by simp
    qed
  qed
  have e: "worldMatrix (ns' ! i) = mat4_multiply (deref base ns par) (localMatrix (ns ! i))"
    using i' n'2 by simp
  show ?case using step u a b c d e unfolding updated_def by auto
qed


lemma traverse_reached:
  "(traverseRecursive fuel ns i = Some (Inr xs) \<longrightarrow>
      (\<forall>k \<in> set xs. k = i \<or> (\<exists>p \<in> set xs. k \<in> set (children (ns ! p)))))
   \<and> (traverseEach fuel ns js = Some (Inr xs) \<longrightarrow>
      (\<forall>k \<in> set xs. k \<in> set js \<or> (\<exists>p \<in> set xs. k \<in> set (children (ns ! p)))))"
proof (induction fuel arbitrary: i js xs)
  case 0
  have "traverseEach 0 ns js = Some (Inr xs) \<longrightarrow> js = [] \<and> xs = []"
    by (cases js) auto
  then show ?case by auto
next
  case (Suc fuel)
  have r: "\<forall>k \<in> set xs. k = i \<or> (\<exists>p \<in> set xs. k \<in> set (children (ns ! p)))"
    if "traverseRecursive (Suc fuel) ns i = Some (Inr xs)" for i xs
  proof -
    from that have i: "i < length ns" by (auto split: if_splits)
    with that obtain ys where ys: "traverseEach fuel ns (children (ns ! i)) = Some (Inr ys)"
      and xs: "xs = i # ys"
      by (auto split: option.splits sum.splits)
    from Suc.IH ys
    have "\<forall>k \<in> set ys. k \<in> set (children (ns ! i))
        \<or> (\<exists>p \<in> set ys. k \<in> set (children (ns ! p)))"
      by blast
    then show ?thesis using xs by auto
  qed
  have e: "traverseEach (Suc fuel) ns js = Some (Inr xs) \<longrightarrow>
      (\<forall>k \<in> set xs. k \<in> set js \<or> (\<exists>p \<in> set xs. k \<in> set (children (ns ! p))))" for js xs
  proof (induction js arbitrary: xs)
    case Nil
    show ?case by auto
  next
    case (Cons j js)
    show ?case
    proof
      assume a: "traverseEach (Suc fuel) ns (j # js) = Some (Inr xs)"
      then obtain ys zs where ys: "traverseRecursive (Suc fuel) ns j = Some (Inr ys)"
        and zs: "traverseEach (Suc fuel) ns js = Some (Inr zs)" and xs: "xs = ys @ zs"
        by (auto simp del: traverseRecursive.simps split: option.splits sum.splits)
      from r [OF ys] Cons.IH [of zs] zs xs
      show "\<forall>k \<in> set xs. k \<in> set (j # js) \<or> (\<exists>p \<in> set xs. k \<in> set (children (ns ! p)))"
        by auto
    qed
  qed
  show ?case using r e by blast
qed

lemma update_Suc:
  "(updateRecursive fuel base force i par ns = Some r \<longrightarrow>
      updateRecursive (Suc fuel) base force i par ns = Some r)
   \<and> (updateEach fuel base force js par ns = Some r \<longrightarrow>
      updateEach (Suc fuel) base force js par ns = Some r)"
proof (induction fuel arbitrary: i js par ns r)
  case 0
  have "updateEach 0 base force js par ns = Some r \<longrightarrow>
      updateEach (Suc 0) base force js par ns = Some r"
    by (cases js) auto
  then show ?case by simp
next
  case (Suc fuel)
  have r: "updateRecursive (Suc (Suc fuel)) base force i par ns = Some r"
    if "updateRecursive (Suc fuel) base force i par ns = Some r" for i par ns r
  proof (cases "i < length ns")
    case False
    with that show ?thesis by simp
  next
    case True
    define n' where "n' = (if force \<or> \<not> hasOriginalMatrix (ns ! i)
                   then updateWorldMatrix (deref base ns par) (ns ! i)
                   else (ns ! i)\<lparr>worldMatrix :=
                          mat4_multiply (deref base ns par) (matrix (ns ! i))\<rparr>)"
    have 1: "updateRecursive (Suc fuel) base force i par ns
        = updateEach fuel base force (children n') (WorldMatrixOf i) (ns[i := n'])"
      using True by (simp add: Let_def n'_def)
    have 2: "updateRecursive (Suc (Suc fuel)) base force i par ns
        = updateEach (Suc fuel) base force (children n') (WorldMatrixOf i) (ns[i := n'])"
      using True by (simp add: Let_def n'_def del: updateEach.simps)
    show ?thesis using that Suc.IH unfolding 1 2 by blast
  qed
  have e: "updateEach (Suc fuel) base force js par ns = Some r \<longrightarrow>
      updateEach (Suc (Suc fuel)) base force js par ns = Some r" for js ns r
  proof (induction js arbitrary: ns r)
    case Nil
    show ?case by simp
  next
    case (Cons j js)
    show ?case
    proof
      assume a: "updateEach (Suc fuel) base force (j # js) par ns = Some r"
      then obtain q where q: "updateRecursive (Suc fuel) base force j par ns = Some q"
        by (cases "updateRecursive (Suc fuel) base force j par ns")
          (auto simp del: updateRecursive.simps)
      have q': "updateRecursive (Suc (Suc fuel)) base force j par ns = Some q"
        using q by (rule r)
      show "updateEach (Suc (Suc fuel)) base force (j # js) par ns = Some r"
      proof (cases q)
        case (Inl err)
        with a q q' show ?thesis by (auto simp del: updateRecursive.simps)
      next
        case (Inr ns1)
        with a q have "updateEach (Suc fuel) base force js par ns1 = Some r"
          by (simp del: updateRecursive.simps)
        then have "updateEach (Suc (Suc fuel)) base force js par ns1 = Some r"
          using Cons.IH by blast
        with q' Inr show ?thesis by (simp del: updateRecursive.simps)
      qed
    qed
  qed
  show ?case using r e by blast
qed

lemma updateWorldMatrices_more_fuel:
  "updateWorldMatrices fuel h base force = Some r \<Longrightarrow> fuel \<le> fuel' \<Longrightarrow>
     updateWorldMatrices fuel' h base force = Some r"
proof (induction fuel')
  case 0
  then show ?case by simp
next
  case (Suc fuel')
  show ?case
  proof (cases "fuel = Suc fuel'")
    case True
    with Suc.prems show ?thesis by simp
  next
    case False
    with Suc.prems have "updateWorldMatrices fuel' h base force = Some r" using Suc.IH by simp
    then show ?thesis
      using update_Suc [of fuel' base force _ BaseTransform "nodes h" r "rootNodes h"]
      by (simp add: updateWorldMatrices_def)
  qed
qed

lemma updateWorldMatrices_ok:
  assumes "traverse fuel h = Some (Inr visited)" and "distinct visited"
  shows "\<exists>ns'. updateWorldMatrices fuel h base True = Some (Inr ns')
     \<and> updated (nodes h) ns' visited
     \<and> (\<forall>r \<in> set (rootNodes h).
           worldMatrix (ns' ! r) = mat4_multiply base (localMatrix (nodes h ! r)))"
proof -
  have t: "traverseEach fuel (nodes h) (rootNodes h) = Some (Inr visited)"
    using assms(1) by (simp add: traverse_def)
  have p: "par_ok BaseTransform visited (nodes h)" by (simp add: par_ok_def)
  from updateEach_step [where f = fuel and base = base, OF updateRecursive_ok t assms(2) p]
  show ?thesis by (simp add: updateWorldMatrices_def deref_def)
qed

text \<open>
  C6. When the nodes form a forest from the roots (the traversal returns with the fuel given
  and meets no node twice), \<^verbatim>\<open>updateWorldMatrices(baseTransform, true)\<close> returns with
  that fuel and with any more, and it changes nothing but the cached matrices. Afterwards the
  world matrix of every root is \<open>baseTransform\<close> times the root's local matrix, and for
  every visited node the world matrix of each child is the node's world matrix times the
  child's local matrix, where the local matrix of a node is the one recomposed from its
  translation, rotation and scale (and is the node's cached matrix); every visited node is a
  root or a child of a visited node.
\<close>

theorem updateWorldMatrices_forest:
  assumes "forest fuel h"
  shows "\<exists>ns' visited. traverse fuel h = Some (Inr visited)
     \<and> (\<forall>fuel' \<ge> fuel. updateWorldMatrices fuel' h baseTransform True = Some (Inr ns'))
     \<and> length ns' = length (nodes h)
     \<and> (\<forall>k < length (nodes h).
           translation (ns' ! k) = translation (nodes h ! k)
           \<and> rotation (ns' ! k) = rotation (nodes h ! k)
           \<and> scale (ns' ! k) = scale (nodes h ! k)
           \<and> children (ns' ! k) = children (nodes h ! k))
     \<and> (\<forall>r \<in> set (rootNodes h).
           worldMatrix (ns' ! r) = mat4_multiply baseTransform (localMatrix (ns' ! r)))
     \<and> (\<forall>p \<in> set visited. \<forall>c \<in> set (children (ns' ! p)).
           worldMatrix (ns' ! c) = mat4_multiply (worldMatrix (ns' ! p)) (localMatrix (ns' ! c)))
     \<and> (\<forall>k \<in> set visited. matrix (ns' ! k) = localMatrix (ns' ! k)
           \<and> (k \<in> set (rootNodes h) \<or> (\<exists>p \<in> set visited. k \<in> set (children (ns' ! p)))))"
proof -
  from assms obtain visited where t: "traverse fuel h = Some (Inr visited)"
    and dv: "distinct visited"
    by (auto simp: forest_def split: option.splits sum.splits)
  from updateWorldMatrices_ok [OF t dv, of baseTransform] obtain ns' where
    u: "updateWorldMatrices fuel h baseTransform True = Some (Inr ns')"
    and g: "updated (nodes h) ns' visited"
    and w: "\<forall>r \<in> set (rootNodes h).
           worldMatrix (ns' ! r) = mat4_multiply baseTransform (localMatrix (nodes h ! r))"
    by blast
  have s: "map strip ns' = map strip (nodes h)" using g by (simp add: updated_def)
  have l: "length ns' = length (nodes h)" using s by (rule same_tree_length)
  have te: "traverseEach fuel (nodes h) (rootNodes h) = Some (Inr visited)"
    using t by (simp add: traverse_def)
  have v: "set (rootNodes h) \<subseteq> set visited" "\<forall>k \<in> set visited. k < length (nodes h)"
    "\<forall>p \<in> set visited. set (children (nodes h ! p)) \<subseteq> set visited"
    using traverse_visited [of fuel "nodes h" _ visited "rootNodes h"] te by blast+
  have reach: "\<forall>k \<in> set visited. k \<in> set (rootNodes h)
      \<or> (\<exists>p \<in> set visited. k \<in> set (children (nodes h ! p)))"
    using traverse_reached [of fuel "nodes h" _ visited "rootNodes h"] te by blast
  have st: "strip (ns' ! k) = strip (nodes h ! k)" if "k < length (nodes h)" for k
  proof -
    have "map strip ns' ! k = map strip (nodes h) ! k" using s by simp
    then show ?thesis using that l by simp
  qed
  have ch: "children (ns' ! k) = children (nodes h ! k)"
    and lo: "localMatrix (ns' ! k) = localMatrix (nodes h ! k)" if "k < length (nodes h)" for k
    using same_tree_nth [OF s that] by simp_all
  have a: "\<forall>fuel' \<ge> fuel. updateWorldMatrices fuel' h baseTransform True = Some (Inr ns')"
    using u updateWorldMatrices_more_fuel by blast
  have b: "\<forall>k < length (nodes h).
           translation (ns' ! k) = translation (nodes h ! k)
           \<and> rotation (ns' ! k) = rotation (nodes h ! k)
           \<and> scale (ns' ! k) = scale (nodes h ! k)
           \<and> children (ns' ! k) = children (nodes h ! k)"
  proof (intro allI impI)
    fix k assume "k < length (nodes h)"
    from st [OF this]
    have "translation (strip (ns' ! k)) = translation (strip (nodes h ! k))"
      "rotation (strip (ns' ! k)) = rotation (strip (nodes h ! k))"
      "scale (strip (ns' ! k)) = scale (strip (nodes h ! k))"
      "children (strip (ns' ! k)) = children (strip (nodes h ! k))"
      by simp_all
    then show "translation (ns' ! k) = translation (nodes h ! k)
           \<and> rotation (ns' ! k) = rotation (nodes h ! k)
           \<and> scale (ns' ! k) = scale (nodes h ! k)
           \<and> children (ns' ! k) = children (nodes h ! k)"
      by (simp add: strip_def)
  qed
  have c: "\<forall>r \<in> set (rootNodes h).
           worldMatrix (ns' ! r) = mat4_multiply baseTransform (localMatrix (ns' ! r))"
    using w v(1,2) lo by auto
  have d: "\<forall>p \<in> set visited. \<forall>c \<in> set (children (ns' ! p)).
           worldMatrix (ns' ! c) = mat4_multiply (worldMatrix (ns' ! p)) (localMatrix (ns' ! c))"
  proof (intro ballI)
    fix p c assume p: "p \<in> set visited" and c: "c \<in> set (children (ns' ! p))"
    then have c': "c \<in> set (children (nodes h ! p))" using ch v(2) by simp
    then have "c < length (nodes h)" using v(2,3) p by auto
    then show "worldMatrix (ns' ! c)
        = mat4_multiply (worldMatrix (ns' ! p)) (localMatrix (ns' ! c))"
      using g p c' lo by (simp add: updated_def)
  qed
  have e: "\<forall>k \<in> set visited. matrix (ns' ! k) = localMatrix (ns' ! k)
           \<and> (k \<in> set (rootNodes h) \<or> (\<exists>p \<in> set visited. k \<in> set (children (ns' ! p))))"
  proof
    fix k assume k: "k \<in> set visited"
    then have "matrix (ns' ! k) = localMatrix (ns' ! k)"
      using g lo v(2) by (simp add: updated_def)
    moreover have "k \<in> set (rootNodes h) \<or> (\<exists>p \<in> set visited. k \<in> set (children (ns' ! p)))"
      using reach k ch v(2) by auto
    ultimately show "matrix (ns' ! k) = localMatrix (ns' ! k)
           \<and> (k \<in> set (rootNodes h) \<or> (\<exists>p \<in> set visited. k \<in> set (children (ns' ! p))))"
      by simp
  qed
  show ?thesis using t a l b c d e by blast
qed


text \<open>
  The scenario: after one update of the two-node hierarchy the child's world matrix is
  \<open>baseTransform * translate(0, 0, 5) * rotateY(90 degrees)\<close>, and for the identity as
  base transform that is the matrix written out below.
\<close>

lemma c6_local_root:
  "mat4_fromRotationTranslationScale [0, 0, 0, 1] [0, 0, 5] [1, 1, 1] = mat4_fromTranslation [0, 0, 5]"
  by (simp add: mat4_fromRotationTranslationScale_def mat4_fromTranslation_def)

lemma c6_local_child:
  "mat4_fromRotationTranslationScale [0, sqrt 2 / 2, 0, sqrt 2 / 2] [0, 0, 0] [1, 1, 1]
     = mat4_fromYRotation (pi / 2)"
  by (simp add: mat4_fromRotationTranslationScale_def mat4_fromYRotation_def Let_def)

lemma c6_product:
  "mat4_multiply (mat4_fromTranslation [0, 0, 5]) (mat4_fromYRotation (pi / 2))
     = [0, 0, - 1, 0,  0, 1, 0, 0,  1, 0, 0, 0,  0, 0, 5, 1]"
  by (simp add: mat4_multiply_def mat4_fromTranslation_def mat4_fromYRotation_def)

theorem updateWorldMatrices_forest_witness:
  "forest 2 c6_hierarchy
   \<and> (\<forall>B. \<exists>ns'. updateWorldMatrices 2 c6_hierarchy B True = Some (Inr ns')
         \<and> worldMatrix (ns' ! 0) = mat4_multiply B (mat4_fromTranslation [0, 0, 5])
         \<and> worldMatrix (ns' ! 1) =
             mat4_multiply (mat4_multiply B (mat4_fromTranslation [0, 0, 5]))
               (mat4_fromYRotation (pi / 2)))
   \<and> mat4_multiply mat4_create (mat4_fromTranslation [0, 0, 5]) = mat4_fromTranslation [0, 0, 5]
   \<and> mat4_multiply (mat4_fromTranslation [0, 0, 5]) (mat4_fromYRotation (pi / 2))
       = [0, 0, - 1, 0,  0, 1, 0, 0,  1, 0, 0, 0,  0, 0, 5, 1]"
proof -
  have f: "forest 2 c6_hierarchy"
    by (simp add: forest_def traverse_def c6_hierarchy_def numeral_2_eq_2)
  have v: "traverse 2 c6_hierarchy = Some (Inr [0, 1])"
    by (simp add: traverse_def c6_hierarchy_def numeral_2_eq_2)
  have main: "\<exists>ns'. updateWorldMatrices 2 c6_hierarchy B True = Some (Inr ns')
         \<and> worldMatrix (ns' ! 0) = mat4_multiply B (mat4_fromTranslation [0, 0, 5])
         \<and> worldMatrix (ns' ! 1) =
             mat4_multiply (mat4_multiply B (mat4_fromTranslation [0, 0, 5]))
               (mat4_fromYRotation (pi / 2))" for B
  proof -
    from updateWorldMatrices_forest [OF f, of B] obtain ns' visited where
      t: "traverse 2 c6_hierarchy = Some (Inr visited)"
      and u: "\<forall>fuel' \<ge> 2. updateWorldMatrices fuel' c6_hierarchy B True = Some (Inr ns')"
      and trs: "\<forall>k < length (nodes c6_hierarchy).
           translation (ns' ! k) = translation (nodes c6_hierarchy ! k)
           \<and> rotation (ns' ! k) = rotation (nodes c6_hierarchy ! k)
           \<and> scale (ns' ! k) = scale (nodes c6_hierarchy ! k)
           \<and> children (ns' ! k) = children (nodes c6_hierarchy ! k)"
      and r: "\<forall>r \<in> set (rootNodes c6_hierarchy).
           worldMatrix (ns' ! r) = mat4_multiply B (localMatrix (ns' ! r))"
      and c: "\<forall>p \<in> set visited. \<forall>c \<in> set (children (ns' ! p)).
           worldMatrix (ns' ! c) = mat4_multiply (worldMatrix (ns' ! p)) (localMatrix (ns' ! c))"
      by blast
    have vis: "visited = [0, 1]" using t v by simp
    have l0: "localMatrix (ns' ! 0) = mat4_fromTranslation [0, 0, 5]"
      using trs [rule_format, of 0] by (simp add: localMatrix_def c6_hierarchy_def c6_local_root)
    have l1: "localMatrix (ns' ! 1) = mat4_fromYRotation (pi / 2)"
      using trs [rule_format, of 1] by (simp add: localMatrix_def c6_hierarchy_def c6_local_child)
    have c0: "children (ns' ! 0) = [1]"
      using trs [rule_format, of 0] by (simp add: c6_hierarchy_def)
    have w0: "worldMatrix (ns' ! 0) = mat4_multiply B (mat4_fromTranslation [0, 0, 5])"
      using r l0 by (simp add: c6_hierarchy_def)
    have w1: "worldMatrix (ns' ! 1)
        = mat4_multiply (worldMatrix (ns' ! 0)) (localMatrix (ns' ! 1))"
      using c [rule_format, of 0 1] vis c0 by simp
    show ?thesis using u w0 w1 l1 by auto
  qed
  have i: "mat4_multiply mat4_create (mat4_fromTranslation [0, 0, 5])
      = mat4_fromTranslation [0, 0, 5]"
    by (simp add: mat4_multiply_def mat4_create_def mat4_fromTranslation_def)
  show ?thesis using f main i c6_product by blast
qed

section \<open>Reading accessors\<close>

text \<open>
  What the interleaved path computes when every element it reads lies within the buffer: a
  closed form of the two loops. For the four array types that the chain of tests knows, the
  result holds the elements at \<open>baseOffset + i * stride + j * elementSize\<close>, and with the
  stride of a packed accessor it is the array of the packed path. For the two signed types it
  is all zeros.
\<close>

declare extract_components.simps [simp del] extract_elements.simps [simp del]

lemma extract_components_closed:
  assumes "i * c + c \<le> length result" and "j \<le> c"
    and "bin_byteOffset bin + srcOffset + c * BYTES_PER_ELEMENT k \<le> length (buffer bin)"
  shows "extract_components k bin srcOffset c i j result =
     Inr (take (i * c + j) result
          @ map (\<lambda>j'. case interleavedRead k (buffer bin)
                          (bin_byteOffset bin + srcOffset + j' * BYTES_PER_ELEMENT k) of
                        Some v \<Rightarrow> v | None \<Rightarrow> result ! (i * c + j')) [j..<c]
          @ drop (i * c + c) result)"
  using assms
proof (induction k bin srcOffset c i j result rule: extract_components.induct)
  case (1 k bin srcOffset c i j result)
  let ?sz = "BYTES_PER_ELEMENT k"
  let ?off = "\<lambda>j'. bin_byteOffset bin + srcOffset + j' * ?sz"
  let ?e = "\<lambda>r j'. case interleavedRead k (buffer bin) (?off j') of
                        Some v \<Rightarrow> v | None \<Rightarrow> r ! (i * c + j')"
  show ?case
  proof (cases "j < c")
    case False
    with "1.prems" have "j = c" by simp
    then show ?thesis
      using "1.prems" by (simp add: extract_components.simps [of k bin srcOffset c i c result])
  next
    case True
    let ?r' = "case interleavedRead k (buffer bin) (?off j) of
                      Some v \<Rightarrow> result[i * c + j := v] | None \<Rightarrow> result"
    have "Suc j * ?sz \<le> c * ?sz" using True by (intro mult_le_mono1) simp
    then have fits: "?off j + ?sz \<le> length (buffer bin)"
      using "1.prems"(3) by simp
    have lr: "length ?r' = length result"
      by (simp split: option.splits)
    have step: "extract_components k bin srcOffset c i j result
        = extract_components k bin srcOffset c i (Suc j) ?r'"
      using True fits
      by (simp add: extract_components.simps [of k bin srcOffset c i j result] Let_def)
    have "i * c + c \<le> length ?r'" using "1.prems"(1) lr by simp
    moreover have "Suc j \<le> c" using True by simp
    ultimately have ih: "extract_components k bin srcOffset c i (Suc j) ?r' =
        Inr (take (i * c + Suc j) ?r' @ map (?e ?r') [Suc j..<c]
             @ drop (i * c + c) ?r')"
      using "1.IH" [OF True refl refl fits] "1.prems"(3) by blast
    have pos: "i * c + j < length result" using True "1.prems"(1) by simp
    have t: "take (i * c + Suc j) ?r' = take (i * c + j) result @ [?e result j]"
      using pos by (simp add: take_Suc_conv_app_nth split: option.splits)
    have m: "map (?e ?r') [Suc j..<c] = map (?e result) [Suc j..<c]"
      by (rule map_cong) (auto split: option.splits)
    have d: "drop (i * c + c) ?r' = drop (i * c + c) result"
      using True by (simp split: option.splits)
    have u: "[j..<c] = j # [Suc j..<c]" using True by (simp add: upt_conv_Cons)
    show ?thesis unfolding step ih t m d u by simp
  qed
qed


lemma extract_elements_closed:
  assumes "length result = cnt * c" and "i \<le> cnt"
    and "\<forall>i' < cnt. bin_byteOffset bin + (byteOffset + i' * byteStride)
            + c * BYTES_PER_ELEMENT k \<le> length (buffer bin)"
  shows "extract_elements k bin byteOffset cnt c byteStride i result =
     Inr (take (i * c) result
          @ concat (map (\<lambda>i'. map (\<lambda>j'.
                case interleavedRead k (buffer bin)
                       (bin_byteOffset bin + (byteOffset + i' * byteStride)
                        + j' * BYTES_PER_ELEMENT k) of
                  Some v \<Rightarrow> v | None \<Rightarrow> result ! (i' * c + j')) [0..<c]) [i..<cnt]))"
  using assms
proof (induction k bin byteOffset cnt c byteStride i result rule: extract_elements.induct)
  case (1 k bin byteOffset cnt c byteStride i result)
  let ?sz = "BYTES_PER_ELEMENT k"
  let ?e = "\<lambda>r i' j'. case interleavedRead k (buffer bin)
                       (bin_byteOffset bin + (byteOffset + i' * byteStride) + j' * ?sz) of
                  Some v \<Rightarrow> v | None \<Rightarrow> r ! (i' * c + j')"
  show ?case
  proof (cases "i < cnt")
    case False
    with "1.prems" have "i = cnt" by simp
    then show ?thesis
      using "1.prems"(1)
      by (simp add: extract_elements.simps [of k bin byteOffset cnt c byteStride cnt result])
  next
    case True
    have "Suc i * c \<le> cnt * c" using True by (intro mult_le_mono1) simp
    then have ic: "i * c + c \<le> length result" using "1.prems"(1) by simp
    let ?r1 = "take (i * c + 0) result @ map (?e result i) [0..<c] @ drop (i * c + c) result"
    have inner: "extract_components k bin (byteOffset + i * byteStride) c i 0 result = Inr ?r1"
      using "1.prems"(3) True by (intro extract_components_closed ic) auto
    have l1: "length ?r1 = cnt * c" using ic "1.prems"(1) by simp
    have step: "extract_elements k bin byteOffset cnt c byteStride i result
        = extract_elements k bin byteOffset cnt c byteStride (Suc i) ?r1"
      using True inner
      by (simp add: extract_elements.simps [of k bin byteOffset cnt c byteStride i result])
    have "Suc i \<le> cnt" using True by simp
    with l1 "1.prems"(3)
    have ih: "extract_elements k bin byteOffset cnt c byteStride (Suc i) ?r1 =
        Inr (take (Suc i * c) ?r1 @ concat (map (\<lambda>i'. map (?e ?r1 i') [0..<c]) [Suc i..<cnt]))"
      using "1.IH" [OF True refl inner] by blast
    have t: "take (Suc i * c) ?r1 = take (i * c) result @ map (?e result i) [0..<c]"
      using ic by simp
    have nth1: "?r1 ! n = result ! n" if "i * c + c \<le> n" for n
    proof -
      have "?r1 = (take (i * c) result @ map (?e result i) [0..<c]) @ drop (i * c + c) result"
        by simp
      moreover have "length (take (i * c) result @ map (?e result i) [0..<c]) = i * c + c"
        using ic by simp
      ultimately have "?r1 ! n = drop (i * c + c) result ! (n - (i * c + c))"
        using that by (simp only: nth_append) simp
      then show ?thesis using that ic by simp
    qed
    have m: "map (\<lambda>i'. map (?e ?r1 i') [0..<c]) [Suc i..<cnt]
        = map (\<lambda>i'. map (?e result i') [0..<c]) [Suc i..<cnt]"
    proof (intro map_cong refl)
      fix i' j' assume "i' \<in> set [Suc i..<cnt]" and "j' \<in> set [0..<c]"
      then have "Suc i * c \<le> i' * c" by (intro mult_le_mono1) simp
      then have "i * c + c \<le> i' * c + j'" by simp
      then have "?r1 ! (i' * c + j') = result ! (i' * c + j')" by (rule nth1)
      then show "?e ?r1 i' j' = ?e result i' j'" by (simp only: split: option.split)
    qed
    have u: "[i..<cnt] = i # [Suc i..<cnt]" using True by (simp add: upt_conv_Cons)
    show ?thesis unfolding step ih t m u by simp
  qed
qed

lemma concat_rows:
  "concat (map (\<lambda>i. map (\<lambda>j. f (i * c + j)) [0..<c]) [0..<n]) = map f [0..<n * c]"
proof (induction n)
  case 0
  show ?case by simp
next
  case (Suc n)
  have "[0..<n * c + c] = [0..<n * c] @ [n * c..<n * c + c]"
    by (rule upt_add_eq_append) simp
  then have "map f [0..<Suc n * c] = map f [0..<n * c] @ map f [n * c..<n * c + c]"
    by (simp add: add.commute)
  moreover have "[n * c..<n * c + c] = map (\<lambda>j. n * c + j) [0..<c]"
    using map_add_upt [of "n * c" c] by (simp add: add.commute)
  then have "map f [n * c..<n * c + c] = map (\<lambda>j. f (n * c + j)) [0..<c]"
    by (simp add: comp_def)
  ultimately show ?case using Suc by simp
qed

lemma interleavedRead_handled:
  "k \<in> {Uint8Array, Uint16Array, Uint32Array, Float32Array} \<Longrightarrow>
     interleavedRead k b off = Some (viewElement k b off)"
  by auto

lemma interleavedRead_signed:
  "k \<in> {Int8Array, Int16Array} \<Longrightarrow> interleavedRead k b off = None"
  by auto

lemma extractInterleavedData_closed:
  assumes "\<forall>i < cnt. bin_byteOffset bin + (byteOffset + i * byteStride)
            + c * BYTES_PER_ELEMENT k \<le> length (buffer bin)"
  shows "extractInterleavedData bin byteOffset cnt c byteStride k =
     Inr \<lparr>kind = k,
          elems = concat (map (\<lambda>i. map (\<lambda>j.
                case interleavedRead k (buffer bin)
                       (bin_byteOffset bin + (byteOffset + i * byteStride)
                        + j * BYTES_PER_ELEMENT k) of
                  Some v \<Rightarrow> v | None \<Rightarrow> zeroElement k) [0..<c]) [0..<cnt])\<rparr>"
proof -
  let ?z = "replicate (cnt * c) (zeroElement k)"
  have "extract_elements k bin byteOffset cnt c byteStride 0 ?z =
     Inr (take (0 * c) ?z
          @ concat (map (\<lambda>i'. map (\<lambda>j'.
                case interleavedRead k (buffer bin)
                       (bin_byteOffset bin + (byteOffset + i' * byteStride)
                        + j' * BYTES_PER_ELEMENT k) of
                  Some v \<Rightarrow> v | None \<Rightarrow> ?z ! (i' * c + j')) [0..<c]) [0..<cnt]))"
    using assms by (intro extract_elements_closed) auto
  moreover have "map (\<lambda>i'. map (\<lambda>j'.
                case interleavedRead k (buffer bin)
                       (bin_byteOffset bin + (byteOffset + i' * byteStride)
                        + j' * BYTES_PER_ELEMENT k) of
                  Some v \<Rightarrow> v | None \<Rightarrow> ?z ! (i' * c + j')) [0..<c]) [0..<cnt]
      = map (\<lambda>i. map (\<lambda>j.
                case interleavedRead k (buffer bin)
                       (bin_byteOffset bin + (byteOffset + i * byteStride)
                        + j * BYTES_PER_ELEMENT k) of
                  Some v \<Rightarrow> v | None \<Rightarrow> zeroElement k) [0..<c]) [0..<cnt]"
  proof (intro map_cong refl)
    fix i j assume "i \<in> set [0..<cnt]" and "j \<in> set [0..<c]"
    then have "Suc i * c \<le> cnt * c" by (intro mult_le_mono1) simp
    then have "i * c + j < cnt * c" using \<open>j \<in> set [0..<c]\<close> by simp
    then have "?z ! (i * c + j) = zeroElement k" by simp
    then show "(case interleavedRead k (buffer bin)
                       (bin_byteOffset bin + (byteOffset + i * byteStride)
                        + j * BYTES_PER_ELEMENT k) of
                  Some v \<Rightarrow> v | None \<Rightarrow> ?z ! (i * c + j))
        = (case interleavedRead k (buffer bin)
                       (bin_byteOffset bin + (byteOffset + i * byteStride)
                        + j * BYTES_PER_ELEMENT k) of
                  Some v \<Rightarrow> v | None \<Rightarrow> zeroElement k)"
      by (simp split: option.split)
  qed
  ultimately show ?thesis
    by (simp add: extractInterleavedData_def bindE_def)
qed


lemma extractInterleavedData_deinterleaves:
  assumes "k \<in> {Uint8Array, Uint16Array, Uint32Array, Float32Array}"
    and "\<forall>i < cnt. bin_byteOffset bin + (byteOffset + i * byteStride)
            + c * BYTES_PER_ELEMENT k \<le> length (buffer bin)"
  shows "extractInterleavedData bin byteOffset cnt c byteStride k =
     Inr \<lparr>kind = k,
          elems = concat (map (\<lambda>i. map (\<lambda>j.
                viewElement k (buffer bin)
                  (bin_byteOffset bin + (byteOffset + i * byteStride)
                   + j * BYTES_PER_ELEMENT k)) [0..<c]) [0..<cnt])\<rparr>"
  using extractInterleavedData_closed [OF assms(2)] interleavedRead_handled [OF assms(1)]
  by simp

lemma extractInterleavedData_signed_zero:
  assumes "k \<in> {Int8Array, Int16Array}"
    and "\<forall>i < cnt. bin_byteOffset bin + (byteOffset + i * byteStride)
            + c * BYTES_PER_ELEMENT k \<le> length (buffer bin)"
  shows "extractInterleavedData bin byteOffset cnt c byteStride k =
     Inr \<lparr>kind = k, elems = replicate (cnt * c) (IntElem 0)\<rparr>"
proof -
  have z: "zeroElement k = IntElem 0" using assms(1) by (auto simp: zeroElement_def)
  have "concat (map (\<lambda>i. map (\<lambda>j. IntElem 0) [0..<c]) [0..<cnt])
      = map (\<lambda>_. IntElem 0) [0..<cnt * c]"
    using concat_rows [of "\<lambda>_. IntElem 0" c cnt] by simp
  then have "concat (map (\<lambda>i. map (\<lambda>j. IntElem 0) [0..<c]) [0..<cnt])
      = replicate (cnt * c) (IntElem 0)"
    by (simp add: map_replicate_const)
  then show ?thesis
    using extractInterleavedData_closed [OF assms(2)] interleavedRead_signed [OF assms(1)] z
    by simp
qed

lemma extractInterleavedData_packed_equiv:
  assumes "k \<in> {Uint8Array, Uint16Array, Uint32Array, Float32Array}"
    and "(bin_byteOffset bin + byteOffset) mod BYTES_PER_ELEMENT k = 0"
    and "bin_byteOffset bin + byteOffset + cnt * c * BYTES_PER_ELEMENT k \<le> length (buffer bin)"
  shows "extractInterleavedData bin byteOffset cnt c (c * BYTES_PER_ELEMENT k) k =
     TypedArray_view k (buffer bin) (bin_byteOffset bin + byteOffset) (cnt * c)"
proof -
  let ?sz = "BYTES_PER_ELEMENT k"
  let ?f = "\<lambda>n. viewElement k (buffer bin) (bin_byteOffset bin + byteOffset + n * ?sz)"
  have inb: "\<forall>i < cnt. bin_byteOffset bin + (byteOffset + i * (c * ?sz)) + c * ?sz
      \<le> length (buffer bin)"
  proof (intro allI impI)
    fix i assume "i < cnt"
    then have "Suc i * (c * ?sz) \<le> cnt * (c * ?sz)" by (intro mult_le_mono1) simp
    then show "bin_byteOffset bin + (byteOffset + i * (c * ?sz)) + c * ?sz
        \<le> length (buffer bin)"
      using assms(3) by (simp add: mult.assoc)
  qed
  have "concat (map (\<lambda>i. map (\<lambda>j.
                viewElement k (buffer bin)
                  (bin_byteOffset bin + (byteOffset + i * (c * ?sz)) + j * ?sz)) [0..<c]) [0..<cnt])
      = concat (map (\<lambda>i. map (\<lambda>j. ?f (i * c + j)) [0..<c]) [0..<cnt])"
    by (simp add: algebra_simps)
  also have "\<dots> = map ?f [0..<cnt * c]" by (rule concat_rows)
  finally show ?thesis
    using extractInterleavedData_deinterleaves [OF assms(1) inb] assms(2,3)
    by (simp add: TypedArray_view_def)
qed

lemma c5_stride_elements:
  "[viewElement Int16Array (buffer (c5_buffers ! 0)) 0,
    viewElement Int16Array (buffer (c5_buffers ! 0)) 4] = [IntElem 1, IntElem 2]"
  by (simp add: c5_buffers_def getUint16_def toInt16_def)

text \<open>
  C5 does not hold of the code. With the component type SHORT (5122) and the byte stride 4,
  which differs from the element size 2, \<^verbatim>\<open>getAccessorData\<close> takes the interleaved path
  and returns two zeros, while the elements at \<open>baseOffset + i * stride\<close> are 1 and 2: the
  chain of tests in \<^verbatim>\<open>_extractInterleavedData\<close> has no case for \<^verbatim>\<open>Int16Array\<close> (nor
  for \<^verbatim>\<open>Int8Array\<close>), so the fresh array is never written. With the component type
  UNSIGNED_SHORT (5123) the same path returns 1 and 2.
\<close>

theorem getAccessorData_interleaved_SHORT:
  "getAccessorData (c5_gltf 5122) c5_buffers 0
     = Inr \<lparr>kind = Int16Array, elems = [IntElem 0, IntElem 0]\<rparr>
   \<and> [viewElement Int16Array (buffer (c5_buffers ! 0)) 0,
       viewElement Int16Array (buffer (c5_buffers ! 0)) 4] = [IntElem 1, IntElem 2]
   \<and> getAccessorData (c5_gltf 5123) c5_buffers 0
       = Inr \<lparr>kind = Uint16Array, elems = [IntElem 1, IntElem 2]\<rparr>"
proof -
  have a: "getAccessorData (c5_gltf 5122) c5_buffers 0
     = Inr \<lparr>kind = Int16Array, elems = [IntElem 0, IntElem 0]\<rparr>"
    by (simp add: getAccessorData_def c5_gltf_def c5_buffers_def or0_def
        COMPONENT_TYPE_ARRAYS_def TYPE_COMPONENTS_def extractInterleavedData_def bindE_def
        zeroElement_def Let_def
        extract_elements.simps [of _ _ _ _ _ _ 0] extract_elements.simps [of _ _ _ _ _ _ "Suc 0"]
        extract_elements.simps [of _ _ _ _ _ _ "Suc (Suc 0)"]
        extract_components.simps [of _ _ _ _ _ 0] extract_components.simps [of _ _ _ _ _ "Suc 0"]
        numeral_2_eq_2)
  have b: "getAccessorData (c5_gltf 5123) c5_buffers 0
       = Inr \<lparr>kind = Uint16Array, elems = [IntElem 1, IntElem 2]\<rparr>"
    by (simp add: getAccessorData_def c5_gltf_def c5_buffers_def or0_def
        COMPONENT_TYPE_ARRAYS_def TYPE_COMPONENTS_def extractInterleavedData_def bindE_def
        zeroElement_def Let_def getUint16_def
        extract_elements.simps [of _ _ _ _ _ _ 0] extract_elements.simps [of _ _ _ _ _ _ "Suc 0"]
        extract_elements.simps [of _ _ _ _ _ _ "Suc (Suc 0)"]
        extract_components.simps [of _ _ _ _ _ 0] extract_components.simps [of _ _ _ _ _ "Suc 0"]
        numeral_2_eq_2)
  show ?thesis using a b c5_stride_elements by simp
qed

section \<open>Decomposition of a node matrix\<close>

lemma Node_fromGLTF_matrix:
  assumes "gltf_matrix nd = Some m" and "length m = 16"
  shows "matrix (Node_fromGLTF nd) = m"
    and "translation (Node_fromGLTF nd) = mat4_getTranslation m"
    and "rotation (Node_fromGLTF nd) = mat4_getRotation m"
    and "scale (Node_fromGLTF nd) = mat4_getScaling m"
    and "hasOriginalMatrix (Node_fromGLTF nd)"
proof -
  from assms(2) have c: "mat4_copy m = m"
    by (elim length16E) (simp add: mat4_copy_def upt_conv_Cons)
  show "matrix (Node_fromGLTF nd) = m"
    and "translation (Node_fromGLTF nd) = mat4_getTranslation m"
    and "rotation (Node_fromGLTF nd) = mat4_getRotation m"
    and "scale (Node_fromGLTF nd) = mat4_getScaling m"
    and "hasOriginalMatrix (Node_fromGLTF nd)"
    using assms(1) by (simp_all add: Node_fromGLTF_def Let_def c)
qed

lemma c9_nodeData_matrix [simp]: "gltf_matrix (c9_nodeData m) = Some m"
  by (simp add: c9_nodeData_def)

lemma matrix_updateLocalMatrix:
  "matrix (updateLocalMatrix n)
     = mat4_fromRotationTranslationScale (rotation n) (translation n) (scale n)"
  by (simp add: updateLocalMatrix_def)

text \<open>
  Where the decomposition works. For a unit quaternion and a uniform positive scale, the
  matrix of the rotation, translation and scale is decomposed into that translation, that
  scale and the quaternion or its negative (the same rotation), and
  \<^verbatim>\<open>updateLocalMatrix\<close> recomposes the very matrix.
\<close>

lemma sqrt4sq: "sqrt (4 * a * a) = 2 * \<bar>a\<bar>"
proof -
  have "sqrt (4 * a * a) = sqrt ((2 * a) * (2 * a))" by (simp add: algebra_simps)
  also have "\<dots> = \<bar>2 * a\<bar>" by (rule real_sqrt_abs2)
  finally show ?thesis by (simp add: abs_mult)
qed

lemma getRotation_entries:
  fixes s t1 t2 t3 :: real
  assumes s: "0 < s"
    and n1: "a11 * a11 + a12 * a12 + a13 * a13 = 1"
    and n2: "a21 * a21 + a22 * a22 + a23 * a23 = 1"
    and n3: "a31 * a31 + a32 * a32 + a33 * a33 = 1"
  defines "m \<equiv> [a11 * s, a12 * s, a13 * s, 0,  a21 * s, a22 * s, a23 * s, 0,
                 a31 * s, a32 * s, a33 * s, 0,  t1, t2, t3, 1]"
  shows "mat4_getScaling m = [s, s, s]"
    and "mat4_getRotation m =
      (if a11 + a22 + a33 > 0 then
           (let S = sqrt (a11 + a22 + a33 + 1) * 2
            in [(a23 - a32) / S, (a31 - a13) / S, (a12 - a21) / S, (1 / 4) * S])
         else if a11 > a22 \<and> a11 > a33 then
           (let S = sqrt (1 + a11 - a22 - a33) * 2
            in [(1 / 4) * S, (a12 + a21) / S, (a31 + a13) / S, (a23 - a32) / S])
         else if a22 > a33 then
           (let S = sqrt (1 + a22 - a11 - a33) * 2
            in [(a12 + a21) / S, (1 / 4) * S, (a23 + a32) / S, (a31 - a13) / S])
         else
           (let S = sqrt (1 + a33 - a11 - a22) * 2
            in [(a31 + a13) / S, (a23 + a32) / S, (1 / 4) * S, (a12 - a21) / S]))"
proof -
  have c: "sqrt (a * s * (a * s) + b * s * (b * s) + c * s * (c * s)) = s"
    if "a * a + b * b + c * c = 1" for a b c :: real
  proof -
    have "a * s * (a * s) + b * s * (b * s) + c * s * (c * s) = (a * a + b * b + c * c) * (s * s)"
      by (simp add: algebra_simps)
    then show ?thesis using s that by simp
  qed
  show sc: "mat4_getScaling m = [s, s, s]"
    by (simp add: mat4_getScaling_def m_def Let_def c [OF n1] c [OF n2] c [OF n3])
  show "mat4_getRotation m = (if a11 + a22 + a33 > 0 then
           (let S = sqrt (a11 + a22 + a33 + 1) * 2
            in [(a23 - a32) / S, (a31 - a13) / S, (a12 - a21) / S, (1 / 4) * S])
         else if a11 > a22 \<and> a11 > a33 then
           (let S = sqrt (1 + a11 - a22 - a33) * 2
            in [(1 / 4) * S, (a12 + a21) / S, (a31 + a13) / S, (a23 - a32) / S])
         else if a22 > a33 then
           (let S = sqrt (1 + a22 - a11 - a33) * 2
            in [(a12 + a21) / S, (1 / 4) * S, (a23 + a32) / S, (a31 - a13) / S])
         else
           (let S = sqrt (1 + a33 - a11 - a22) * 2
            in [(a31 + a13) / S, (a23 + a32) / S, (1 / 4) * S, (a12 - a21) / S]))"
    using s unfolding mat4_getRotation_def sc by (simp add: m_def Let_def)
qed


lemma quot_abs:
  fixes a b :: real
  assumes "a \<noteq> 0"
  shows "4 * a * b / (2 * \<bar>a\<bar> * 2) = (if 0 < a then b else - b)"
  using assms by (auto simp: field_simps abs_if)

lemma quarter_abs:
  fixes a :: real
  shows "1 / 4 * (2 * \<bar>a\<bar> * 2) = (if 0 < a then a else - a)"
  by (auto simp: abs_if)

lemma decompose_uniform:
  fixes x y z w s t1 t2 t3 :: real
  assumes unit: "x * x + y * y + z * z + w * w = 1" and s: "0 < s"
  defines "m \<equiv> mat4_fromRotationTranslationScale [x, y, z, w] [t1, t2, t3] [s, s, s]"
  shows "mat4_getTranslation m = [t1, t2, t3]"
    and "mat4_getScaling m = [s, s, s]"
    and "mat4_getRotation m = [x, y, z, w] \<or> mat4_getRotation m = [- x, - y, - z, - w]"
proof -
  define a11 where "a11 = 1 - (y * (y + y) + z * (z + z))"
  define a12 where "a12 = x * (y + y) + w * (z + z)"
  define a13 where "a13 = x * (z + z) - w * (y + y)"
  define a21 where "a21 = x * (y + y) - w * (z + z)"
  define a22 where "a22 = 1 - (x * (x + x) + z * (z + z))"
  define a23 where "a23 = y * (z + z) + w * (x + x)"
  define a31 where "a31 = x * (z + z) + w * (y + y)"
  define a32 where "a32 = y * (z + z) - w * (x + x)"
  define a33 where "a33 = 1 - (x * (x + x) + y * (y + y))"
  note defs = a11_def a12_def a13_def a21_def a22_def a23_def a31_def a32_def a33_def
  have m: "m = [a11 * s, a12 * s, a13 * s, 0,  a21 * s, a22 * s, a23 * s, 0,
                a31 * s, a32 * s, a33 * s, 0,  t1, t2, t3, 1]"
    by (simp add: m_def mat4_fromRotationTranslationScale_def defs Let_def)
  have sq: "(x * x + y * y + z * z + w * w) * (x * x + y * y + z * z + w * w) = 1"
    unfolding unit by simp
  have d11: "a11 = x * x + w * w - y * y - z * z"
    and d22: "a22 = y * y + w * w - x * x - z * z"
    and d33: "a33 = z * z + w * w - x * x - y * y"
    using unit unfolding defs by (simp_all add: algebra_simps)
  have n1: "a11 * a11 + a12 * a12 + a13 * a13 = 1"
    unfolding d11 unfolding a12_def a13_def sq [symmetric] by (simp add: algebra_simps)
  have n2: "a21 * a21 + a22 * a22 + a23 * a23 = 1"
    unfolding d22 unfolding a21_def a23_def sq [symmetric] by (simp add: algebra_simps)
  have n3: "a31 * a31 + a32 * a32 + a33 * a33 = 1"
    unfolding d33 unfolding a31_def a32_def sq [symmetric] by (simp add: algebra_simps)
  note ge = getRotation_entries [OF s n1 n2 n3, of t1 t2 t3, folded m]
  show "mat4_getTranslation m = [t1, t2, t3]" by (simp add: m mat4_getTranslation_def)
  show "mat4_getScaling m = [s, s, s]" by (rule ge(1))
  have tr: "a11 + a22 + a33 + 1 = 4 * w * w"
    and e1: "1 + a11 - a22 - a33 = 4 * x * x"
    and e2: "1 + a22 - a11 - a33 = 4 * y * y"
    and e3: "1 + a33 - a11 - a22 = 4 * z * z"
    using unit unfolding defs by (simp_all add: algebra_simps)
  have o: "a23 - a32 = 4 * w * x" "a31 - a13 = 4 * w * y" "a12 - a21 = 4 * w * z"
    "a12 + a21 = 4 * x * y" "a31 + a13 = 4 * x * z" "a23 + a32 = 4 * y * z"
    unfolding defs by (simp_all add: algebra_simps)
  have sqs: "sqrt (a11 + a22 + a33 + 1) = 2 * \<bar>w\<bar>" "sqrt (1 + a11 - a22 - a33) = 2 * \<bar>x\<bar>"
    "sqrt (1 + a22 - a11 - a33) = 2 * \<bar>y\<bar>" "sqrt (1 + a33 - a11 - a22) = 2 * \<bar>z\<bar>"
    unfolding tr e1 e2 e3 by (rule sqrt4sq)+
  show "mat4_getRotation m = [x, y, z, w] \<or> mat4_getRotation m = [- x, - y, - z, - w]"
  proof (cases "a11 + a22 + a33 > 0")
    case True
    then have "w \<noteq> 0" using tr by auto
    have "mat4_getRotation m =
        [4 * w * x / (2 * \<bar>w\<bar> * 2), 4 * w * y / (2 * \<bar>w\<bar> * 2), 4 * w * z / (2 * \<bar>w\<bar> * 2),
         1 / 4 * (2 * \<bar>w\<bar> * 2)]"
      using True by (simp add: ge(2) Let_def sqs o)
    then show ?thesis
      by (simp only: quot_abs [OF \<open>w \<noteq> 0\<close>] quarter_abs) (simp split: if_splits)
  next
    case F1: False
    show ?thesis
    proof (cases "a11 > a22 \<and> a11 > a33")
      case True
      have "x \<noteq> 0"
      proof
        assume "x = 0"
        then have "a11 - a22 = - (2 * (y * y))" unfolding d11 d22 by simp
        moreover have "0 \<le> y * y" by simp
        ultimately show False using True by linarith
      qed
      have o': "a23 - a32 = 4 * x * w" using o(1) by simp
      have "mat4_getRotation m =
          [1 / 4 * (2 * \<bar>x\<bar> * 2), 4 * x * y / (2 * \<bar>x\<bar> * 2), 4 * x * z / (2 * \<bar>x\<bar> * 2),
           4 * x * w / (2 * \<bar>x\<bar> * 2)]"
        using F1 True by (simp add: ge(2) Let_def sqs o(4,5) o')
      then show ?thesis
        by (simp only: quot_abs [OF \<open>x \<noteq> 0\<close>] quarter_abs) (simp split: if_splits)
    next
      case F2: False
      show ?thesis
      proof (cases "a22 > a33")
        case True
        have "y \<noteq> 0"
        proof
          assume "y = 0"
          then have "a22 - a33 = - (2 * (z * z))" unfolding d22 d33 by simp
          moreover have "0 \<le> z * z" by simp
          ultimately show False using True by linarith
        qed
        have o': "a12 + a21 = 4 * y * x" "a23 + a32 = 4 * y * z" "a31 - a13 = 4 * y * w"
          using o by simp_all
        have "mat4_getRotation m =
            [4 * y * x / (2 * \<bar>y\<bar> * 2), 1 / 4 * (2 * \<bar>y\<bar> * 2), 4 * y * z / (2 * \<bar>y\<bar> * 2),
             4 * y * w / (2 * \<bar>y\<bar> * 2)]"
          using F1 F2 True by (simp add: ge(2) Let_def sqs o')
        then show ?thesis
          by (simp only: quot_abs [OF \<open>y \<noteq> 0\<close>] quarter_abs) (simp split: if_splits)
      next
        case F3: False
        have "z \<noteq> 0"
        proof
          assume z: "z = 0"
          have yy: "0 \<le> y * y" and xx: "0 \<le> x * x" by simp_all
          have "a22 - a33 = 2 * (y * y)" unfolding d22 d33 z by simp
          then have y0: "y * y = 0" using F3 yy by linarith
          have "a11 - a22 = 2 * (x * x)" "a11 - a33 = 2 * (x * x)"
            unfolding d11 d22 d33 z using y0 by simp_all
          then have x0: "x * x = 0" using F2 xx by linarith
          have "w * w = 1" using unit x0 y0 z by simp
          then show False using F1 tr by simp
        qed
        have o': "a31 + a13 = 4 * z * x" "a23 + a32 = 4 * z * y" "a12 - a21 = 4 * z * w"
          using o by simp_all
        have "mat4_getRotation m =
            [4 * z * x / (2 * \<bar>z\<bar> * 2), 4 * z * y / (2 * \<bar>z\<bar> * 2), 1 / 4 * (2 * \<bar>z\<bar> * 2),
             4 * z * w / (2 * \<bar>z\<bar> * 2)]"
          unfolding ge(2) if_not_P [OF F1] if_not_P [OF F2] if_not_P [OF F3]
          by (simp add: Let_def sqs o')
        then show ?thesis
          by (simp only: quot_abs [OF \<open>z \<noteq> 0\<close>] quarter_abs) (simp split: if_splits)
      qed
    qed
  qed
qed

lemma fromRotationTranslationScale_neg:
  "mat4_fromRotationTranslationScale [- x, - y, - z, - w] v s
     = mat4_fromRotationTranslationScale [x, y, z, w] v s"
  by (simp add: mat4_fromRotationTranslationScale_def Let_def)

lemma length_fromRotationTranslationScale [simp]:
  "length (mat4_fromRotationTranslationScale q v s) = 16"
  by (simp add: mat4_fromRotationTranslationScale_def Let_def)

lemma Node_fromGLTF_uniform:
  fixes x y z w s t1 t2 t3 :: real
  assumes unit: "x * x + y * y + z * z + w * w = 1" and s: "0 < s"
    and nd: "gltf_matrix nd = Some (mat4_fromRotationTranslationScale [x, y, z, w] [t1, t2, t3] [s, s, s])"
  shows "translation (Node_fromGLTF nd) = [t1, t2, t3]"
    and "scale (Node_fromGLTF nd) = [s, s, s]"
    and "rotation (Node_fromGLTF nd) = [x, y, z, w]
         \<or> rotation (Node_fromGLTF nd) = [- x, - y, - z, - w]"
    and "matrix (updateLocalMatrix (Node_fromGLTF nd))
         = mat4_fromRotationTranslationScale [x, y, z, w] [t1, t2, t3] [s, s, s]"
proof -
  let ?m = "mat4_fromRotationTranslationScale [x, y, z, w] [t1, t2, t3] [s, s, s]"
  note n = Node_fromGLTF_matrix [OF nd length_fromRotationTranslationScale]
  note d = decompose_uniform [OF unit s, of t1 t2 t3]
  show t: "translation (Node_fromGLTF nd) = [t1, t2, t3]" unfolding n(2) by (rule d(1))
  show sc: "scale (Node_fromGLTF nd) = [s, s, s]" unfolding n(4) by (rule d(2))
  show r: "rotation (Node_fromGLTF nd) = [x, y, z, w]
         \<or> rotation (Node_fromGLTF nd) = [- x, - y, - z, - w]"
    unfolding n(3) by (rule d(3))
  from r show "matrix (updateLocalMatrix (Node_fromGLTF nd)) = ?m"
    unfolding matrix_updateLocalMatrix t sc
    by (auto simp only: fromRotationTranslationScale_neg)
qed

text \<open>
  Likewise for a translation after a scale with positive factors, equal or not, and no
  rotation.
\<close>

lemma Node_fromGLTF_positive_scale:
  fixes s1 s2 s3 t1 t2 t3 :: real
  assumes s: "0 < s1" "0 < s2" "0 < s3"
    and nd: "gltf_matrix nd = Some (mat4_fromRotationTranslationScale [0, 0, 0, 1] [t1, t2, t3] [s1, s2, s3])"
  shows "translation (Node_fromGLTF nd) = [t1, t2, t3]"
    and "scale (Node_fromGLTF nd) = [s1, s2, s3]"
    and "rotation (Node_fromGLTF nd) = [0, 0, 0, 1]"
    and "matrix (updateLocalMatrix (Node_fromGLTF nd))
         = mat4_fromRotationTranslationScale [0, 0, 0, 1] [t1, t2, t3] [s1, s2, s3]"
proof -
  let ?m = "mat4_fromRotationTranslationScale [0, 0, 0, 1] [t1, t2, t3] [s1, s2, s3]"
  note n = Node_fromGLTF_matrix [OF nd length_fromRotationTranslationScale]
  have m: "?m = [s1, 0, 0, 0,  0, s2, 0, 0,  0, 0, s3, 0,  t1, t2, t3, 1]"
    by (simp add: mat4_fromRotationTranslationScale_def)
  have sc: "mat4_getScaling ?m = [s1, s2, s3]"
    using s by (simp add: m mat4_getScaling_def Let_def)
  have r: "mat4_getRotation ?m = [0, 0, 0, 1]"
    using s unfolding mat4_getRotation_def sc by (simp add: m Let_def)
  show t: "translation (Node_fromGLTF nd) = [t1, t2, t3]"
    unfolding n(2) by (simp add: m mat4_getTranslation_def)
  show sc': "scale (Node_fromGLTF nd) = [s1, s2, s3]" unfolding n(4) by (rule sc)
  show r': "rotation (Node_fromGLTF nd) = [0, 0, 0, 1]" unfolding n(3) by (rule r)
  show "matrix (updateLocalMatrix (Node_fromGLTF nd)) = ?m"
    unfolding matrix_updateLocalMatrix t sc' r' ..
qed

text \<open>The translation \<open>(1, 2, 3)\<close> after the scale \<open>(2, 3, 4)\<close>, for one.\<close>

lemma Node_fromGLTF_scaled:
  "c9_scaled = mat4_fromRotationTranslationScale [0, 0, 0, 1] [1, 2, 3] [2, 3, 4]
   \<and> translation (Node_fromGLTF (c9_nodeData c9_scaled)) = [1, 2, 3]
   \<and> rotation (Node_fromGLTF (c9_nodeData c9_scaled)) = [0, 0, 0, 1]
   \<and> scale (Node_fromGLTF (c9_nodeData c9_scaled)) = [2, 3, 4]
   \<and> matrix (updateLocalMatrix (Node_fromGLTF (c9_nodeData c9_scaled))) = c9_scaled"
proof -
  have l: "length c9_scaled = 16" by (simp add: c9_scaled_def)
  have t: "mat4_getTranslation c9_scaled = [1, 2, 3]"
    by (simp add: mat4_getTranslation_def c9_scaled_def)
  have s: "mat4_getScaling c9_scaled = [2, 3, 4]"
    by (simp add: mat4_getScaling_def c9_scaled_def Let_def)
  have r: "mat4_getRotation c9_scaled = [0, 0, 0, 1]"
    by (simp add: mat4_getRotation_def s Let_def) (simp add: c9_scaled_def)
  have m: "mat4_fromRotationTranslationScale [0, 0, 0, 1] [1, 2, 3] [2, 3, 4] = c9_scaled"
    by (simp add: mat4_fromRotationTranslationScale_def c9_scaled_def)
  show ?thesis
    by (simp add: Node_fromGLTF_matrix [OF c9_nodeData_matrix l] matrix_updateLocalMatrix t s r m)
qed

text \<open>
  A quarter turn about the z axis after the scale \<open>(2, 1, 1)\<close>: the rotation read off
  the matrix is not a unit quaternion, and the recomposed matrix is another one.
\<close>

lemma Node_fromGLTF_turned:
  "c9_turned = mat4_fromRotationTranslationScale [0, 0, sqrt 2 / 2, sqrt 2 / 2] [0, 0, 0] [2, 1, 1]
   \<and> rotation (Node_fromGLTF (c9_nodeData c9_turned)) = [0, 0, 5 * sqrt 2 / 8, sqrt 2 / 2]
   \<and> scale (Node_fromGLTF (c9_nodeData c9_turned)) = [2, 1, 1]
   \<and> matrix (updateLocalMatrix (Node_fromGLTF (c9_nodeData c9_turned)))
       = [- (9 / 8), 5 / 2, 0, 0,  - (5 / 4), - (9 / 16), 0, 0,  0, 0, 1, 0,  0, 0, 0, 1]"
proof -
  have l: "length c9_turned = 16" by (simp add: c9_turned_def)
  have t: "mat4_getTranslation c9_turned = [0, 0, 0]"
    by (simp add: mat4_getTranslation_def c9_turned_def)
  have s: "mat4_getScaling c9_turned = [2, 1, 1]"
    by (simp add: mat4_getScaling_def c9_turned_def Let_def)
  have "5 * sqrt 2 * sqrt 2 = 10" by simp
  then have q: "10 / sqrt 2 = 5 * sqrt 2" by (simp add: divide_eq_eq)
  have r: "mat4_getRotation c9_turned = [0, 0, 5 * sqrt 2 / 8, sqrt 2 / 2]"
    by (simp add: mat4_getRotation_def s Let_def) (simp add: c9_turned_def q)
  have m: "mat4_fromRotationTranslationScale [0, 0, 5 * sqrt 2 / 8, sqrt 2 / 2] [0, 0, 0] [2, 1, 1]
      = [- (9 / 8), 5 / 2, 0, 0,  - (5 / 4), - (9 / 16), 0, 0,  0, 0, 1, 0,  0, 0, 0, 1]"
    by (simp add: mat4_fromRotationTranslationScale_def)
  have o: "c9_turned
      = mat4_fromRotationTranslationScale [0, 0, sqrt 2 / 2, sqrt 2 / 2] [0, 0, 0] [2, 1, 1]"
    by (simp add: c9_turned_def mat4_fromRotationTranslationScale_def)
  show ?thesis
    using o by (simp add: Node_fromGLTF_matrix [OF c9_nodeData_matrix l] matrix_updateLocalMatrix t s r m)
qed

text \<open>
  C9. A node object whose matrix is the mirror in the x axis, the product of no
  translation, no rotation and the scale \<open>(-1, 1, 1)\<close>: \<^verbatim>\<open>Node.fromGLTF\<close> gives the
  node no translation, the rotation \<open>(0, 0, 0, sqrt 2 / 2)\<close>, which is not a unit
  quaternion, and the scale \<open>(1, 1, 1)\<close>; \<^verbatim>\<open>updateLocalMatrix\<close> recomposes them to
  the identity matrix, whose first entry is 1 where the node's matrix has -1.
\<close>

theorem Node_fromGLTF_mirror:
  "c9_mirror = mat4_fromRotationTranslationScale [0, 0, 0, 1] [0, 0, 0] [- 1, 1, 1]
   \<and> translation (Node_fromGLTF (c9_nodeData c9_mirror)) = [0, 0, 0]
   \<and> rotation (Node_fromGLTF (c9_nodeData c9_mirror)) = [0, 0, 0, sqrt 2 / 2]
   \<and> scale (Node_fromGLTF (c9_nodeData c9_mirror)) = [1, 1, 1]
   \<and> matrix (updateLocalMatrix (Node_fromGLTF (c9_nodeData c9_mirror))) = mat4_create
   \<and> matrix (updateLocalMatrix (Node_fromGLTF (c9_nodeData c9_mirror))) ! 0 - c9_mirror ! 0 = 2"
proof -
  have l: "length c9_mirror = 16" by (simp add: c9_mirror_def)
  have t: "mat4_getTranslation c9_mirror = [0, 0, 0]"
    by (simp add: mat4_getTranslation_def c9_mirror_def)
  have s: "mat4_getScaling c9_mirror = [1, 1, 1]"
    by (simp add: mat4_getScaling_def c9_mirror_def Let_def)
  have r: "mat4_getRotation c9_mirror = [0, 0, 0, sqrt 2 / 2]"
    by (simp add: mat4_getRotation_def s Let_def) (simp add: c9_mirror_def)
  have m: "mat4_fromRotationTranslationScale [0, 0, 0, sqrt 2 / 2] [0, 0, 0] [1, 1, 1]
      = mat4_create"
    by (simp add: mat4_fromRotationTranslationScale_def mat4_create_def)
  have o: "c9_mirror = mat4_fromRotationTranslationScale [0, 0, 0, 1] [0, 0, 0] [- 1, 1, 1]"
    by (simp add: c9_mirror_def mat4_fromRotationTranslationScale_def)
  have d: "mat4_create ! 0 - c9_mirror ! 0 = 2"
    by (simp add: mat4_create_def c9_mirror_def)
  show ?thesis
    using o d by (simp add: Node_fromGLTF_matrix [OF c9_nodeData_matrix l] matrix_updateLocalMatrix t s r m)
qed
end
